theory Spec2Isabelle
  imports Main "HOL-Library.Word"
begin

unbundle bit_operations_syntax

chapter \<open>The program\<close>

section \<open>Keyring: trust levels\<close>

text \<open>
  \<^verbatim>\<open>type TrustLevel byte\<close> with its four named constants. \<open>TrustThreshold\<close> is a
  package variable initialised to \<open>TrustHIGH\<close> and assigned nowhere else.
\<close>

type_synonym TrustLevel = "8 word"

definition TrustNONE :: TrustLevel where "TrustNONE = 0x00"
definition TrustLOW :: TrustLevel where "TrustLOW = 0x01"
definition TrustHIGH :: TrustLevel where "TrustHIGH = 0x03"
definition TrustULTIMATE :: TrustLevel where "TrustULTIMATE = 0xff"

definition TrustThreshold :: TrustLevel where "TrustThreshold = TrustHIGH"

text \<open>\<^verbatim>\<open>func (t TrustLevel) Min(t2 TrustLevel) TrustLevel\<close>\<close>

definition TrustLevel_Min :: "TrustLevel \<Rightarrow> TrustLevel \<Rightarrow> TrustLevel" where
  "TrustLevel_Min t t2 = (if t < t2 then t else t2)"

text \<open>
  \<^verbatim>\<open>func (t TrustLevel) Add(t2 TrustLevel) TrustLevel\<close>, documented as "a safe addition
  between two TrustLevels". The last branch is the byte addition \<open>t + t2\<close>.
\<close>

definition TrustLevel_Add :: "TrustLevel \<Rightarrow> TrustLevel \<Rightarrow> TrustLevel" where
  "TrustLevel_Add t t2 =
     (if t = TrustULTIMATE \<or> t2 = TrustULTIMATE then TrustULTIMATE
      else if t \<ge> TrustThreshold \<or> t2 \<ge> TrustThreshold then TrustThreshold
      else t + t2)"

section \<open>Wire envelope (network/protocol)\<close>

text \<open>
  A packet is one byte of type identifier, the body length as an unsigned varint, and
  the body. \<open>Unpack\<close> reads from a stream that can be read byte by byte; the stream
  is the list of bytes still to be read.
\<close>

type_synonym byte = "8 word"

datatype error =
    EOF  \<comment> \<open>\<^verbatim>\<open>io.EOF\<close>\<close>
  | ErrUnexpectedEOF  \<comment> \<open>\<^verbatim>\<open>io.ErrUnexpectedEOF\<close>\<close>
  | ErrOverflow  \<comment> \<open>"binary: varint overflows a 64-bit integer"\<close>
  | ErrInternalBadWireType  \<comment> \<open>\<^verbatim>\<open>proto.ErrInternalBadWireType\<close>\<close>
  | ErrInvalidLength  \<comment> \<open>\<^verbatim>\<open>errors.New("invalid length")\<close>\<close>
  | ErrUnmarshal  \<comment> \<open>any error of \<^verbatim>\<open>proto.Unmarshal\<close>\<close>

text \<open>
  What a call does: it returns a value, returns an error, or panics (an index out of
  range, a nil dereference), which Go does not return to the caller.
\<close>

datatype 'a outcome = Returned 'a | Failed error | Panicked

definition is_failure :: "'a outcome \<Rightarrow> bool" where
  "is_failure r = (case r of Failed _ \<Rightarrow> True | _ \<Rightarrow> False)"

definition typeIdentifiers :: "string list" where
  "typeIdentifiers =
     ['''', ''consensus.Query'', ''consensus.Endorsement'', ''consensus.StartCheckpoint'',
      ''reserved'', ''reserved'', ''reserved'', ''consensus.RecoveryRequest'',
      ''consensus.RecoveryResponse'', ''reserved'', ''bbc.Choice'']"

text \<open>
  Modelled from the spec: the generated protobuf code of the packages consensus and
  bbc, which registers their message types under their names, is not among the
  sources. The spec (4.3) gives the message types of the envelope: Query, Endorsement,
  StartCheckpoint, RecoveryRequest, RecoveryResponse and BBC.Choice. No message type
  is named "reserved" or "". \<^verbatim>\<open>proto.MessageType\<close> looks a name up in that registry and
  returns nil for a name that is not registered.
\<close>

definition registeredTypes :: "string list" where
  "registeredTypes =
     [''consensus.Query'', ''consensus.Endorsement'', ''consensus.StartCheckpoint'',
      ''consensus.RecoveryRequest'', ''consensus.RecoveryResponse'', ''bbc.Choice'']"

definition MessageType :: "string \<Rightarrow> string option" where
  "MessageType name = (if name \<in> set registeredTypes then Some name else None)"

text \<open>
  \<^verbatim>\<open>binary.ReadUvarint\<close> of Go's standard library: seven bits per byte, least
  significant group first, the high bit set on every byte but the last; an error when
  the stream ends first, or when the value overflows 64 bits (more than ten bytes, or
  a tenth byte above 1). \<open>i\<close> counts the bytes read, \<open>x\<close> is the value so far and
  \<open>s\<close> the shift. It returns the result and the rest of the stream.
\<close>

fun ReadUvarint_loop ::
  "nat \<Rightarrow> 64 word \<Rightarrow> nat \<Rightarrow> byte list \<Rightarrow> (error + 64 word) \<times> byte list" where
  "ReadUvarint_loop i x s [] = (Inl EOF, [])"
| "ReadUvarint_loop i x s (b # bs) =
     (if b < 0x80 then
        (if i > 9 \<or> i = 9 \<and> b > 1 then (Inl ErrOverflow, bs)
         else (Inr (x OR push_bit s (ucast b)), bs))
      else ReadUvarint_loop (i + 1) (x OR push_bit s (ucast (b AND 0x7f))) (s + 7) bs)"

definition ReadUvarint :: "byte list \<Rightarrow> (error + 64 word) \<times> byte list" where
  "ReadUvarint bs = ReadUvarint_loop 0 0 0 bs"

text \<open>
  \<^verbatim>\<open>io.ReadFull(in, buf)\<close> with \<open>len(buf) = n\<close>: the next \<open>n\<close> bytes, \<^verbatim>\<open>io.EOF\<close> when
  nothing could be read and \<^verbatim>\<open>io.ErrUnexpectedEOF\<close> when the stream ends inside the
  buffer. Reading zero bytes succeeds.
\<close>

definition ReadFull :: "byte list \<Rightarrow> nat \<Rightarrow> (error + byte list) \<times> byte list" where
  "ReadFull bs n =
     (if n \<le> length bs then (Inr (take n bs), drop n bs)
      else if bs = [] then (Inl EOF, [])
      else (Inl ErrUnexpectedEOF, []))"

text \<open>
  \<^verbatim>\<open>func Unpack(in InputStream) (m proto.Message, err error)\<close>. The protobuf decoder
  \<^verbatim>\<open>proto.Unmarshal\<close> is a parameter: given the message type and the body it returns
  the message, or \<open>None\<close> for its error.

  The tag test is \<^verbatim>\<open>b == 0 || b > byte(len(typeIdentifiers))\<close>; the table has 11
  entries, so the tag 11 passes the test and \<^verbatim>\<open>typeIdentifiers[b]\<close> is out of range.
  For a name that is not registered \<^verbatim>\<open>proto.MessageType\<close> is nil and
  \<^verbatim>\<open>mType.Elem()\<close> dereferences it.
\<close>

definition Unpack :: "(string \<Rightarrow> byte list \<Rightarrow> 'm option) \<Rightarrow> byte list \<Rightarrow> 'm outcome" where
  "Unpack Unmarshal inp =
     (case inp of
        [] \<Rightarrow> Failed EOF
      | b # rest \<Rightarrow>
          if b = 0 \<or> b > of_nat (length typeIdentifiers) then Failed ErrInternalBadWireType
          else if \<not> unat b < length typeIdentifiers then Panicked
          else (case MessageType (typeIdentifiers ! unat b) of
                  None \<Rightarrow> Panicked
                | Some mType \<Rightarrow>
                    (case ReadUvarint rest of
                       (Inl e, _) \<Rightarrow> Failed e
                     | (Inr l, rest') \<Rightarrow>
                         if l > push_bit 30 1 then Failed ErrInvalidLength
                         else (case ReadFull rest' (unat l) of
                                 (Inl e, _) \<Rightarrow> Failed e
                               | (Inr buf, _) \<Rightarrow>
                                   (case Unmarshal mType buf of
                                      None \<Rightarrow> Failed ErrUnmarshal
                                    | Some m \<Rightarrow> Returned m)))))"

text \<open>
  The cases of the spec, in its words. The length varint is truncated when every byte
  of the rest has its high bit set, and malformed when it runs over ten bytes or its
  tenth byte is above 1.
\<close>

definition varint_bad :: "byte list \<Rightarrow> bool" where
  "varint_bad bs =
     (let k = length (takeWhile (\<lambda>b. \<not> b < 0x80) bs)
      in k = length bs \<or> k > 9 \<or> (k = 9 \<and> bs ! 9 > 1))"

definition supportedTags :: "byte list" where
  "supportedTags = [1, 2, 3, 7, 8, 10]"

definition envelope_rejected :: "byte list \<Rightarrow> bool" where
  "envelope_rejected inp =
     (inp = [] \<or> hd inp = 0 \<or> hd inp \<notin> set supportedTags \<or> varint_bad (tl inp) \<or>
      (case ReadUvarint (tl inp) of
         (Inr l, rest) \<Rightarrow> 2 ^ 30 < unat l \<or> length rest < unat l
       | (Inl e, rest) \<Rightarrow> False))"

text \<open>
  A decoder for concrete runs: it accepts the empty body (the message with every field
  at its default) and no other. Protobuf's decoder also rejects the one-byte body
  \<open>0xff\<close>, a field key cut short, which is the only body the runs below give it.
\<close>

definition emptyBodyDecoder :: "string \<Rightarrow> byte list \<Rightarrow> unit option" where
  "emptyBodyDecoder mType body = (if body = [] then Some () else None)"

section \<open>Query store (consensus/query_store.go)\<close>

subsection \<open>Messages\<close>

text \<open>
  Of a Query the store reads the uuid and the deadline; the deadline is a time in
  nanoseconds, or nil. Of an Endorsement it reads the uuid of the endorsed query, the
  emitter and the conditions. Both are immutable once received.
\<close>

record Query =
  q_Uuid :: string
  q_Deadline :: "int option"

record Endorsement =
  e_Uuid :: string
  e_Emitter :: string
  e_Conditions :: "string list"

text \<open>
  A proof holds a query or an endorsement; the query is a pointer, which may be nil.
\<close>

datatype Proof = Proof_Query "Query option" | Proof_Endorsement Endorsement

text \<open>
  \<^verbatim>\<open>func (q *Query) ExpiredSince(d time.Duration) bool\<close>, with \<^verbatim>\<open>time.Now()\<close> as the
  parameter \<open>now\<close>; a nil query and a nil deadline count as expired.
\<close>

definition ExpiredSince :: "int \<Rightarrow> Query option \<Rightarrow> int \<Rightarrow> bool" where
  "ExpiredSince now q d =
     (case q of
        None \<Rightarrow> True
      | Some q' \<Rightarrow>
          (case q_Deadline q' of
             None \<Rightarrow> True
           | Some deadline \<Rightarrow> \<not> (deadline > now - d)))"

definition deltaOld :: int where
  "deltaOld = 1000000000"

subsection \<open>Store records\<close>

datatype queryState = qPending | qCommitted | qDropped

record cachedInfo =
  result :: bool
  fresh :: bool

definition cache_Set :: "bool \<Rightarrow> cachedInfo" where
  "cache_Set r = \<lparr>result = r, fresh = True\<rparr>"

definition cache_Mark :: "cachedInfo \<Rightarrow> cachedInfo" where
  "cache_Mark ci = ci\<lparr>fresh := False\<rparr>"

definition cache_zero :: cachedInfo where
  "cache_zero = \<lparr>result = False, fresh = False\<rparr>"

record endorsementInfo =
  ei_Endorsement :: Endorsement
  ei_cache :: cachedInfo

text \<open>
  \<open>qi_Query\<close> is the embedded \<^verbatim>\<open>*Query\<close>, nil in the zero value \<^verbatim>\<open>queryInfo{}\<close>.
\<close>

record queryInfo =
  qi_Query :: "Query option"
  Endorsements :: "endorsementInfo list"
  Dependents :: "string list"
  State :: queryState
  Endorsed :: bool
  Applied :: bool
  qi_cache :: cachedInfo

definition queryInfo_zero :: queryInfo where
  "queryInfo_zero =
     \<lparr>qi_Query = None, Endorsements = [], Dependents = [], State = qPending,
      Endorsed = False, Applied = False, qi_cache = cache_zero\<rparr>"

record queryStore =
  queries :: "string \<rightharpoonup> queryInfo"
  pendingDependencies :: "string \<rightharpoonup> string list"
  pendingEndorsements :: "Endorsement list"
  threshold :: int

definition newQueryStore :: queryStore where
  "newQueryStore =
     \<lparr>queries = Map.empty, pendingDependencies = Map.empty, pendingEndorsements = [],
      threshold = 0\<rparr>"

text \<open>
  Reading a Go map at a missing key gives the zero value: \<^verbatim>\<open>qs.queries[uuid]\<close> and
  \<^verbatim>\<open>qs.pendingDependencies[c]\<close>.
\<close>

definition queries_at :: "queryStore \<Rightarrow> string \<Rightarrow> queryInfo" where
  "queries_at qs uuid = (case queries qs uuid of None \<Rightarrow> queryInfo_zero | Some qi \<Rightarrow> qi)"

definition pendingDependencies_at :: "queryStore \<Rightarrow> string \<Rightarrow> string list" where
  "pendingDependencies_at qs c = (case pendingDependencies qs c of None \<Rightarrow> [] | Some l \<Rightarrow> l)"

definition set_query :: "queryStore \<Rightarrow> string \<Rightarrow> queryInfo \<Rightarrow> queryStore" where
  "set_query qs uuid qi = qs\<lparr>queries := (queries qs)(uuid \<mapsto> qi)\<rparr>"

text \<open>\<^verbatim>\<open>func addToSet(set []string, value string) []string\<close>\<close>

definition addToSet :: "string list \<Rightarrow> string \<Rightarrow> string list" where
  "addToSet set' v = (if v \<in> set set' then set' else set' @ [v])"

subsection \<open>Calls that may not return\<close>

text \<open>
  \<open>cascadeMark\<close> and \<open>isApplicable\<close> are recursive through the dependency graph, and
  \<open>isApplicable\<close> does not return on a cycle of conditions. Each function that
  reaches them takes a bound \<open>n\<close> on the depth of the recursion; the result \<open>None\<close>
  says that the call does not return within that depth, or that it panics (reading the
  uuid of a record whose query is nil).
\<close>

subsection \<open>Marking caches\<close>

text \<open>
  The inner loop of \<open>cascadeMark\<close>: an endorsement that lists \<open>uuid\<close> among its
  conditions is marked.
\<close>

definition markEndorsement :: "string \<Rightarrow> endorsementInfo \<Rightarrow> endorsementInfo" where
  "markEndorsement uuid e =
     (if uuid \<in> set (e_Conditions (ei_Endorsement e)) then e\<lparr>ei_cache := cache_Mark (ei_cache e)\<rparr>
      else e)"

text \<open>
  The loop of \<open>cascadeMark\<close> over \<^verbatim>\<open>qi.Dependents\<close>, with the recursive call as the
  parameter \<open>rec\<close>. The endorsements of a dependent are marked in place, in the array
  that the map's entry shares, so the entry changes before the recursive call stores
  the record again.
\<close>

fun cascadeDependents ::
  "(queryStore \<Rightarrow> queryInfo \<Rightarrow> queryStore option) \<Rightarrow> string \<Rightarrow> queryStore \<Rightarrow> string list
   \<Rightarrow> queryStore option" where
  "cascadeDependents rec parent qs [] = Some qs"
| "cascadeDependents rec parent qs (uuid # rest) =
     (case queries qs uuid of
        None \<Rightarrow> cascadeDependents rec parent qs rest
      | Some qid \<Rightarrow>
          (let qid' = qid\<lparr>Endorsements := map (markEndorsement parent) (Endorsements qid)\<rparr>
           in case rec (set_query qs uuid qid') qid' of
                None \<Rightarrow> None
              | Some qs' \<Rightarrow> cascadeDependents rec parent qs' rest))"

text \<open>\<^verbatim>\<open>func (qs *queryStore) cascadeMark(qi queryInfo)\<close>\<close>

primrec cascadeMark :: "nat \<Rightarrow> queryStore \<Rightarrow> queryInfo \<Rightarrow> queryStore option" where
  "cascadeMark 0 = (\<lambda>qs qi. None)"
| "cascadeMark (Suc n) =
     (\<lambda>qs qi.
        case qi_Query qi of
          None \<Rightarrow> Some qs
        | Some q \<Rightarrow>
            (let marked = \<not> fresh (qi_cache qi);
                 qi' = qi\<lparr>qi_cache := cache_Mark (qi_cache qi)\<rparr>;
                 qs' = set_query qs (q_Uuid q) qi'
             in if marked then Some qs'
                else cascadeDependents (cascadeMark n) (q_Uuid q) qs' (Dependents qi')))"

subsection \<open>Adding queries and endorsements\<close>

text \<open>
  The loop of \<open>addEndorsementInternal\<close> over \<^verbatim>\<open>e.Conditions\<close>. It reads \<^verbatim>\<open>qi.Uuid\<close>,
  which panics when the query of \<open>qi\<close> is nil.
\<close>

fun registerConditions :: "queryStore \<Rightarrow> queryInfo \<Rightarrow> string list \<Rightarrow> queryStore option" where
  "registerConditions qs qi [] = Some qs"
| "registerConditions qs qi (c # cs) =
     (case qi_Query qi of
        None \<Rightarrow> None
      | Some q \<Rightarrow>
          (case queries qs c of
             Some qic \<Rightarrow>
               registerConditions
                 (set_query qs c (qic\<lparr>Dependents := addToSet (Dependents qic) (q_Uuid q)\<rparr>)) qi cs
           | None \<Rightarrow>
               registerConditions
                 (qs\<lparr>pendingDependencies := (pendingDependencies qs)
                       (c \<mapsto> addToSet (pendingDependencies_at qs c) (q_Uuid q))\<rparr>) qi cs))"

text \<open>
  \<^verbatim>\<open>func (qs *queryStore) addEndorsementInternal(e *Endorsement, qi queryInfo) (bool, queryInfo)\<close>.
  \<open>qi\<close> is the caller's copy of the record; the map is written for the conditions only.
\<close>

definition addEndorsementInternal ::
  "queryStore \<Rightarrow> Endorsement \<Rightarrow> queryInfo \<Rightarrow> (bool \<times> queryInfo \<times> queryStore) option" where
  "addEndorsementInternal qs e qi =
     (if e_Emitter e \<in> set (map (e_Emitter \<circ> ei_Endorsement) (Endorsements qi))
      then Some (False, qi, qs)
      else
        (case registerConditions qs qi (e_Conditions e) of
           None \<Rightarrow> None
         | Some qs' \<Rightarrow>
             Some (True,
                   qi\<lparr>Endorsements :=
                        Endorsements qi @ [\<lparr>ei_Endorsement = e, ei_cache = cache_zero\<rparr>]\<rparr>,
                   qs')))"

text \<open>
  The loop of \<open>AddQuery\<close> over the parked endorsements: those of other queries are
  kept, in their order; those of \<open>q\<close> are added to \<open>qi\<close>.
\<close>

fun injectPending ::
  "string \<Rightarrow> Endorsement list \<Rightarrow> Endorsement list \<Rightarrow> queryInfo \<Rightarrow> queryStore
   \<Rightarrow> (Endorsement list \<times> queryInfo \<times> queryStore) option" where
  "injectPending uuid [] kept qi qs = Some (kept, qi, qs)"
| "injectPending uuid (pe # pes) kept qi qs =
     (if e_Uuid pe \<noteq> uuid then injectPending uuid pes (kept @ [pe]) qi qs
      else
        (case addEndorsementInternal qs pe qi of
           None \<Rightarrow> None
         | Some (_, qi', qs') \<Rightarrow> injectPending uuid pes kept qi' qs'))"

text \<open>
  \<^verbatim>\<open>func (qs *queryStore) AddQuery(q *Query) (inserted bool)\<close>. The list of parked
  endorsements is assigned by a deferred call, when \<open>AddQuery\<close> returns.
\<close>

definition AddQuery :: "nat \<Rightarrow> queryStore \<Rightarrow> Query \<Rightarrow> (bool \<times> queryStore) option" where
  "AddQuery n qs q =
     (case queries qs (q_Uuid q) of
        Some _ \<Rightarrow> Some (False, qs)
      | None \<Rightarrow>
          (case injectPending (q_Uuid q) (pendingEndorsements qs) []
                  (queryInfo_zero\<lparr>qi_Query := Some q\<rparr>) qs of
             None \<Rightarrow> None
           | Some (pending, qi, qs1) \<Rightarrow>
               (let qi' = qi\<lparr>Dependents := pendingDependencies_at qs1 (q_Uuid q)\<rparr>;
                    qs2 = qs1\<lparr>pendingDependencies := (pendingDependencies qs1)(q_Uuid q := None)\<rparr>;
                    qi'' = qi'\<lparr>qi_cache := cache_Set False\<rparr>
                in case cascadeMark n qs2 qi'' of
                     None \<Rightarrow> None
                   | Some qs3 \<Rightarrow> Some (True, qs3\<lparr>pendingEndorsements := pending\<rparr>))))"

text \<open>
  \<^verbatim>\<open>func (qs *queryStore) AddEndorsement(e *Endorsement) (pending bool, inserted bool)\<close>
\<close>

definition AddEndorsement ::
  "nat \<Rightarrow> queryStore \<Rightarrow> Endorsement \<Rightarrow> ((bool \<times> bool) \<times> queryStore) option" where
  "AddEndorsement n qs e =
     (case queries qs (e_Uuid e) of
        None \<Rightarrow> Some ((True, False), qs\<lparr>pendingEndorsements := pendingEndorsements qs @ [e]\<rparr>)
      | Some qi \<Rightarrow>
          (case addEndorsementInternal qs e qi of
             None \<Rightarrow> None
           | Some (inserted, qi', qs') \<Rightarrow>
               (case cascadeMark n qs' qi' of
                  None \<Rightarrow> None
                | Some qs'' \<Rightarrow> Some ((False, inserted), qs''))))"

subsection \<open>Applicability\<close>

text \<open>
  The loop of \<open>isApplicable\<close> over the conditions of one endorsement, with the
  recursive call as the parameter \<open>rec\<close>: the endorsement is valid when no condition
  is applicable, and the loop stops at the first applicable one.
\<close>

fun conditionsHold ::
  "(queryStore \<Rightarrow> string \<Rightarrow> (bool \<times> queryStore) option) \<Rightarrow> queryStore \<Rightarrow> string list
   \<Rightarrow> (bool \<times> queryStore) option" where
  "conditionsHold rec qs [] = Some (True, qs)"
| "conditionsHold rec qs (c # cs) =
     (case rec qs c of
        None \<Rightarrow> None
      | Some (applicable, qs') \<Rightarrow>
          if applicable then Some (False, qs') else conditionsHold rec qs' cs)"

text \<open>
  The loop of \<open>isApplicable\<close> over \<^verbatim>\<open>q.Endorsements\<close>: it returns the endorsements with
  their caches set, and the number of valid ones.
\<close>

fun countValid ::
  "(queryStore \<Rightarrow> string \<Rightarrow> (bool \<times> queryStore) option) \<Rightarrow> queryStore \<Rightarrow> endorsementInfo list
   \<Rightarrow> (endorsementInfo list \<times> nat \<times> queryStore) option" where
  "countValid rec qs [] = Some ([], 0, qs)"
| "countValid rec qs (e # es) =
     (case (if \<not> fresh (ei_cache e)
            then (case conditionsHold rec qs (e_Conditions (ei_Endorsement e)) of
                    None \<Rightarrow> None
                  | Some (ok, qs') \<Rightarrow> Some (e\<lparr>ei_cache := cache_Set ok\<rparr>, qs'))
            else Some (e, qs)) of
        None \<Rightarrow> None
      | Some (e', qs') \<Rightarrow>
          (case countValid rec qs' es of
             None \<Rightarrow> None
           | Some (es', valid, qs'') \<Rightarrow>
               Some (e' # es', (if result (ei_cache e') then valid + 1 else valid), qs'')))"

text \<open>
  \<^verbatim>\<open>func (qs *queryStore) isApplicable(uuid string) bool\<close>. The record \<open>q\<close> is the copy
  read at the start; the deferred call sets its cache and stores it when the function
  returns. (The endorsements are written in place as the loop goes, so a nested call
  for the same uuid would see the caches set so far; such a call never returns, in the
  code as here.)
\<close>

primrec isApplicable :: "nat \<Rightarrow> queryStore \<Rightarrow> string \<Rightarrow> (bool \<times> queryStore) option" where
  "isApplicable 0 = (\<lambda>qs uuid. None)"
| "isApplicable (Suc n) =
     (\<lambda>qs uuid.
        case queries qs uuid of
          None \<Rightarrow> Some (False, qs)
        | Some q \<Rightarrow>
            if State q = qDropped then Some (False, qs)
            else if State q = qCommitted then Some (True, qs)
            else if fresh (qi_cache q) then Some (result (qi_cache q), qs)
            else if int (length (Endorsements q)) < threshold qs
            then Some (False, set_query qs uuid (q\<lparr>qi_cache := cache_Set False\<rparr>))
            else
              (case countValid (isApplicable n) qs (Endorsements q) of
                 None \<Rightarrow> None
               | Some (es, valid, qs') \<Rightarrow>
                   (let r = (int valid \<ge> threshold qs)
                    in Some (r, set_query qs' uuid
                                  (q\<lparr>Endorsements := es, qi_cache := cache_Set r\<rparr>)))))"

subsection \<open>Dropping and committing\<close>

text \<open>\<^verbatim>\<open>func (qs *queryStore) drop(uuid string)\<close>\<close>

definition drop_query :: "nat \<Rightarrow> queryStore \<Rightarrow> string \<Rightarrow> queryStore option" where
  "drop_query n qs uuid =
     cascadeMark n qs ((queries_at qs uuid)\<lparr>State := qDropped, qi_cache := cache_Set False\<rparr>)"

text \<open>\<^verbatim>\<open>func (qs *queryStore) CheckpointDrop(queries []string)\<close>; also the loop of \<open>commit\<close>.\<close>

fun CheckpointDrop :: "nat \<Rightarrow> queryStore \<Rightarrow> string list \<Rightarrow> queryStore option" where
  "CheckpointDrop n qs [] = Some qs"
| "CheckpointDrop n qs (uuid # rest) =
     (case drop_query n qs uuid of
        None \<Rightarrow> None
      | Some qs' \<Rightarrow> CheckpointDrop n qs' rest)"

text \<open>\<^verbatim>\<open>func (qs *queryStore) commit(uuid string)\<close>: "Drop dependents synchronously".\<close>

definition commit :: "nat \<Rightarrow> queryStore \<Rightarrow> string \<Rightarrow> queryStore option" where
  "commit n qs uuid =
     (let qi = (queries_at qs uuid)\<lparr>State := qCommitted\<rparr>
      in CheckpointDrop n (set_query qs uuid qi) (Dependents qi))"

text \<open>\<^verbatim>\<open>func (qs *queryStore) checkSpeculativeState(uuid string, applicable bool)\<close>\<close>

definition checkSpeculativeState :: "queryStore \<Rightarrow> string \<Rightarrow> bool \<Rightarrow> queryStore" where
  "checkSpeculativeState qs uuid applicable =
     (case queries qs uuid of
        None \<Rightarrow> qs
      | Some qi \<Rightarrow>
          (let qi1 = (if \<not> applicable \<and> Applied qi then qi\<lparr>Applied := False\<rparr> else qi);
               qi2 = (if applicable \<and> \<not> Applied qi1 then qi1\<lparr>Applied := True\<rparr> else qi1)
           in set_query qs uuid qi2))"

text \<open>\<^verbatim>\<open>func (qs *queryStore) Endorse(uuid string)\<close>\<close>

definition Endorse :: "queryStore \<Rightarrow> string \<Rightarrow> queryStore" where
  "Endorse qs uuid =
     (case queries qs uuid of
        None \<Rightarrow> qs
      | Some qi \<Rightarrow> set_query qs uuid (qi\<lparr>Endorsed := True\<rparr>))"

subsection \<open>CheckState\<close>

text \<open>
  The loop of \<open>CheckState\<close> over the conditions of one endorsement. It stops at the
  first condition that is unknown or not dropped, and then the endorsement is not
  definitely valid; that condition is a candidate for a checkpoint when it is unknown,
  or not applicable and expired for \<open>deltaOld\<close>. It returns whether the endorsement is
  definitely valid, and the checkpoint list.
\<close>

fun definitelyValid ::
  "nat \<Rightarrow> int \<Rightarrow> queryStore \<Rightarrow> string list \<Rightarrow> string list
   \<Rightarrow> (bool \<times> string list \<times> queryStore) option" where
  "definitelyValid n now qs checkpoint [] = Some (True, checkpoint, qs)"
| "definitelyValid n now qs checkpoint (c # cs) =
     (case queries qs c of
        None \<Rightarrow> Some (False, addToSet checkpoint c, qs)
      | Some qi \<Rightarrow>
          if State qi \<noteq> qDropped then
            (case isApplicable n qs c of
               None \<Rightarrow> None
             | Some (applicable, qs') \<Rightarrow>
                 (let old = (\<not> applicable \<and> ExpiredSince now (qi_Query qi) deltaOld)
                  in Some (False, if old then addToSet checkpoint c else checkpoint, qs')))
          else definitelyValid n now qs checkpoint cs)"

text \<open>The loop of \<open>CheckState\<close> over the endorsements: the count \<open>n\<close> of the source.\<close>

fun countDefinitelyValid ::
  "nat \<Rightarrow> int \<Rightarrow> queryStore \<Rightarrow> string list \<Rightarrow> endorsementInfo list
   \<Rightarrow> (nat \<times> string list \<times> queryStore) option" where
  "countDefinitelyValid n now qs checkpoint [] = Some (0, checkpoint, qs)"
| "countDefinitelyValid n now qs checkpoint (e # es) =
     (case definitelyValid n now qs checkpoint (e_Conditions (ei_Endorsement e)) of
        None \<Rightarrow> None
      | Some (dv, checkpoint', qs') \<Rightarrow>
          (case countDefinitelyValid n now qs' checkpoint' es of
             None \<Rightarrow> None
           | Some (k, checkpoint'', qs'') \<Rightarrow>
               Some ((if dv then k + 1 else k), checkpoint'', qs'')))"

text \<open>
  \<^verbatim>\<open>func (qs *queryStore) CheckState(uuid string) (commit bool, checkpoint []string)\<close>
\<close>

definition CheckState ::
  "nat \<Rightarrow> int \<Rightarrow> queryStore \<Rightarrow> string \<Rightarrow> ((bool \<times> string list) \<times> queryStore) option" where
  "CheckState n now qs uuid =
     (case isApplicable n qs uuid of
        None \<Rightarrow> None
      | Some (applicable, qs1) \<Rightarrow>
          (let qs2 = checkSpeculativeState qs1 uuid applicable
           in if \<not> applicable then Some ((False, []), qs2)
              else if State (queries_at qs2 uuid) = qCommitted then Some ((False, []), qs2)
              else
                (case countDefinitelyValid n now qs2 [] (Endorsements (queries_at qs2 uuid)) of
                   None \<Rightarrow> None
                 | Some (k, checkpoint, qs3) \<Rightarrow>
                     if int k \<ge> threshold qs3 then
                       (case commit n qs3 uuid of
                          None \<Rightarrow> None
                        | Some qs4 \<Rightarrow> Some ((True, checkpoint), qs4))
                     else Some ((False, checkpoint), qs3))))"

text \<open>
  \<^verbatim>\<open>func (qs *queryStore) CheckpointChoice(queries []string) (choice bool, proofs []*Proof)\<close>
\<close>

fun CheckpointChoice ::
  "nat \<Rightarrow> queryStore \<Rightarrow> string list \<Rightarrow> ((bool \<times> Proof list) \<times> queryStore) option" where
  "CheckpointChoice n qs [] = Some ((True, []), qs)"
| "CheckpointChoice n qs (uuid # rest) =
     (case isApplicable n qs uuid of
        None \<Rightarrow> None
      | Some (applicable, qs') \<Rightarrow>
          if applicable then
            Some ((False,
                   Proof_Query (qi_Query (queries_at qs' uuid)) #
                   map (Proof_Endorsement \<circ> ei_Endorsement)
                     (Endorsements (queries_at qs' uuid))),
                  qs')
          else CheckpointChoice n qs' rest)"

section \<open>Snapshots of the query store (Dump and Load)\<close>

text \<open>
  \<open>Dump\<close> writes a header and then the three collections of the store, each with one
  call of a \<^verbatim>\<open>encoding/gob\<close> encoder; \<open>Load\<close> reads the header and then decodes into
  the three fields of its receiver. The threshold is not written.

  Of a struct, gob transmits the exported fields only. The embedded \<^verbatim>\<open>cachedInfo\<close> of
  \<^verbatim>\<open>queryInfo\<close> and of \<^verbatim>\<open>endorsementInfo\<close> is not exported, so what a message holds of
  a record is the query, the endorsements without their caches, the dependents, the
  state and the two flags.
\<close>

record gob_queryInfo =
  g_Query :: "Query option"
  g_Endorsements :: "Endorsement list"
  g_Dependents :: "string list"
  g_State :: queryState
  g_Endorsed :: bool
  g_Applied :: bool

definition encode_queryInfo :: "queryInfo \<Rightarrow> gob_queryInfo" where
  "encode_queryInfo qi =
     \<lparr>g_Query = qi_Query qi, g_Endorsements = map ei_Endorsement (Endorsements qi),
      g_Dependents = Dependents qi, g_State = State qi, g_Endorsed = Endorsed qi,
      g_Applied = Applied qi\<rparr>"

text \<open>
  The decoder builds every element of a map and of a new slice from the zero value:
  the fields that the message does not hold are zero.
\<close>

definition decode_queryInfo :: "gob_queryInfo \<Rightarrow> queryInfo" where
  "decode_queryInfo g =
     \<lparr>qi_Query = g_Query g,
      Endorsements = map (\<lambda>e. \<lparr>ei_Endorsement = e, ei_cache = cache_zero\<rparr>) (g_Endorsements g),
      Dependents = g_Dependents g, State = g_State g, Endorsed = g_Endorsed g,
      Applied = g_Applied g, qi_cache = cache_zero\<rparr>"

text \<open>The value of one \<^verbatim>\<open>Encode\<close> call, by the type of what was encoded.\<close>

datatype gob_value =
    GobQueries "string \<rightharpoonup> gob_queryInfo"  \<comment> \<open>\<^verbatim>\<open>map[string]queryInfo\<close>\<close>
  | GobDependencies "string \<rightharpoonup> string list"  \<comment> \<open>\<^verbatim>\<open>map[string][]string\<close>\<close>
  | GobEndorsements "Endorsement list"  \<comment> \<open>\<^verbatim>\<open>[]*Endorsement\<close>\<close>

text \<open>
  A snapshot, as a writer has received it and as a reader gives it: its first bytes,
  up to the place where gob values start, and the gob values after them. Bytes that
  are left between the header and the first value are bytes that the decoder cannot
  read as a value.
\<close>

record snapshot =
  s_bytes :: "byte list"
  s_values :: "gob_value list"

text \<open>\<^verbatim>\<open>var dumpHeader = []byte(" PNYXDB_DUMP_V1 ")\<close>\<close>

definition dumpHeader :: "byte list" where
  "dumpHeader =
     [0x20, 0x50, 0x4e, 0x59, 0x58, 0x44, 0x42, 0x5f, 0x44, 0x55, 0x4d, 0x50, 0x5f, 0x56, 0x31,
      0x20]"

datatype load_error =
    ReadError error  \<comment> \<open>the error of \<^verbatim>\<open>io.ReadFull\<close>\<close>
  | ErrInvalidDumpHeader  \<comment> \<open>\<^verbatim>\<open>errors.New("invalid dump header")\<close>\<close>
  | GobError  \<comment> \<open>any error of \<^verbatim>\<open>decoder.Decode\<close>\<close>

text \<open>
  \<^verbatim>\<open>func (qs *queryStore) Dump(w io.Writer) error\<close>, for a writer that takes every
  write (a buffer, as in the test of the engine): what the writer has received. The
  encoder finds nothing that it cannot encode in the three collections.
\<close>

definition Dump :: "queryStore \<Rightarrow> snapshot" where
  "Dump qs =
     \<lparr>s_bytes = dumpHeader,
      s_values =
        [GobQueries (map_option encode_queryInfo \<circ> queries qs),
         GobDependencies (pendingDependencies qs),
         GobEndorsements (pendingEndorsements qs)]\<rparr>"

text \<open>
  The three calls \<^verbatim>\<open>decoder.Decode(&qs.queries)\<close>,
  \<^verbatim>\<open>decoder.Decode(&qs.pendingDependencies)\<close> and
  \<^verbatim>\<open>decoder.Decode(&qs.pendingEndorsements)\<close>. Each reads the next value, which must be
  of the type of its target; the first error ends \<open>Load\<close>, and what was decoded before
  it stays in the store.

  gob decodes a map into the map that the target holds, when it holds one (the maps of
  a store are made by \<open>newQueryStore\<close>): every key read is set, and the other keys of
  the target stay. A slice target with no backing array, as the list of parked
  endorsements of a new store, receives a new slice of the elements read; the lists
  of this model have no backing array, and the model gives the list read for every
  target.
\<close>

fun decodeStore :: "queryStore \<Rightarrow> gob_value list \<Rightarrow> load_error option \<times> queryStore" where
  "decodeStore qs (GobQueries m # vs) =
     (let qs1 = qs\<lparr>queries := queries qs ++ (map_option decode_queryInfo \<circ> m)\<rparr> in
      case vs of
        GobDependencies d # vs' \<Rightarrow>
          (let qs2 = qs1\<lparr>pendingDependencies := pendingDependencies qs1 ++ d\<rparr> in
           case vs' of
             GobEndorsements es # _ \<Rightarrow> (None, qs2\<lparr>pendingEndorsements := es\<rparr>)
           | _ \<Rightarrow> (Some GobError, qs2))
      | _ \<Rightarrow> (Some GobError, qs1))"
| "decodeStore qs _ = (Some GobError, qs)"

text \<open>
  \<^verbatim>\<open>func (qs *queryStore) Load(r io.Reader) error\<close>: the error, or \<open>None\<close> for nil, and
  the receiver as the call leaves it.
\<close>

definition Load :: "queryStore \<Rightarrow> snapshot \<Rightarrow> load_error option \<times> queryStore" where
  "Load qs r =
     (case ReadFull (s_bytes r) (length dumpHeader) of
        (Inl e, _) \<Rightarrow> (Some (ReadError e), qs)
      | (Inr initBuf, rest) \<Rightarrow>
          if initBuf \<noteq> dumpHeader then (Some ErrInvalidDumpHeader, qs)
          else if rest \<noteq> [] then (Some GobError, qs)
          else decodeStore qs (s_values r))"

section \<open>BBC veto (consensus/bbc/veto.go)\<close>

record Choice =
  c_Identifier :: string
  c_Emitter :: string
  c_Choice :: bool
  c_Proofs :: "Proof list"
  c_Signature :: "byte list"

text \<open>The messages of the network: \<^verbatim>\<open>proto.Message\<close> values of the program's types.\<close>

datatype message =
    MsgQuery Query
  | MsgEndorsement Endorsement
  | MsgStartCheckpoint "string list"
  | MsgChoice Choice

text \<open>
  What \<open>Execute\<close> uses of its keyring and its network. The hash of a choice is taken
  with the signature cleared; \<open>Hash\<close> is \<open>None\<close> when the choice cannot be
  marshalled, \<open>Sign\<close> is \<open>None\<close> when the keyring cannot sign, \<open>Verify\<close> holds
  when \<^verbatim>\<open>KeyRing.Verify\<close> returns no error, and \<open>Broadcast\<close> holds when the network
  returns no error for the message.
\<close>

record vetoEngine =
  Identity :: string
  Hash :: "Choice \<Rightarrow> byte list option"
  Sign :: "byte list \<Rightarrow> byte list option"
  Verify :: "string \<Rightarrow> byte list \<Rightarrow> byte list \<Rightarrow> bool"
  Broadcast :: "Choice \<Rightarrow> bool"
  ve_threshold :: int

datatype veto_error = HashError | SignError | BroadcastError

text \<open>
  What a call of \<open>Execute\<close> gives: its three results, the choices that the network
  took from it, and the messages of the stream it has not read.
\<close>

record execution =
  decision :: bool
  dp :: "Proof list"
  err :: "veto_error option"
  sent :: "Choice list"
  unread :: "Choice list"

text \<open>\<^verbatim>\<open>func (c Choice) Hash() ([]byte, error)\<close>\<close>

definition Choice_Hash :: "vetoEngine \<Rightarrow> Choice \<Rightarrow> byte list option" where
  "Choice_Hash ve c = Hash ve (c\<lparr>c_Signature := []\<rparr>)"

text \<open>
  The stream of \<^verbatim>\<open>ve.n.Accept(ctx, acceptor)\<close>: of the messages that the network
  delivers until the stream is closed, the choices whose identifier is \<open>id\<close>.
\<close>

definition acceptor :: "string \<Rightarrow> message \<Rightarrow> Choice option" where
  "acceptor ident m =
     (case m of
        MsgChoice c \<Rightarrow> if c_Identifier c = ident then Some c else None
      | _ \<Rightarrow> None)"

definition Accept :: "string \<Rightarrow> message list \<Rightarrow> Choice list" where
  "Accept ident ms = List.map_filter (acceptor ident) ms"

text \<open>
  The loop of \<open>Execute\<close> over the stream. \<open>sentF\<close> and \<open>receivedT\<close> are the
  variables of the source, \<open>out\<close> the choices broadcast so far. A false choice is
  relayed once, when none was sent before. At the end of the stream the loop is left
  and the function returns \<^verbatim>\<open>true, nil, nil\<close>.
\<close>

fun Execute_loop ::
  "vetoEngine \<Rightarrow> bool \<Rightarrow> string set \<Rightarrow> Choice list \<Rightarrow> Choice list \<Rightarrow> execution" where
  "Execute_loop ve sentF receivedT out [] =
     \<lparr>decision = True, dp = [], err = None, sent = out, unread = []\<rparr>"
| "Execute_loop ve sentF receivedT out (c # ms) =
     (case Choice_Hash ve c of
        None \<Rightarrow> Execute_loop ve sentF receivedT out ms
      | Some hash \<Rightarrow>
          if \<not> Verify ve (c_Emitter c) hash (c_Signature c)
          then Execute_loop ve sentF receivedT out ms
          else if \<not> c_Choice c then
            \<lparr>decision = False, dp = c_Proofs c, err = None,
             sent = (if \<not> sentF \<and> Broadcast ve c then out @ [c] else out), unread = ms\<rparr>
          else
            (let receivedT' = insert (c_Emitter c) receivedT
             in if int (card receivedT') = ve_threshold ve
                then \<lparr>decision = True, dp = [], err = None, sent = out, unread = ms\<rparr>
                else Execute_loop ve sentF receivedT' out ms))"

text \<open>
  \<^verbatim>\<open>func (ve vetoEngine) Execute(ctx, id, choice, proofs) (decision bool, dp []*Proof, err error)\<close>;
  \<open>ms\<close> are the messages that the network delivers until the context is cancelled.
  When the choice cannot be hashed, signed or broadcast, \<open>Execute\<close> returns the error
  with the zero values of the other results.
\<close>

definition Execute ::
  "vetoEngine \<Rightarrow> message list \<Rightarrow> string \<Rightarrow> bool \<Rightarrow> Proof list \<Rightarrow> execution" where
  "Execute ve ms ident choice proofs =
     (let c = \<lparr>c_Identifier = ident, c_Emitter = Identity ve, c_Choice = choice,
                c_Proofs = proofs, c_Signature = []\<rparr>;
          stream = Accept ident ms
      in case Choice_Hash ve c of
           None \<Rightarrow>
             \<lparr>decision = False, dp = [], err = Some HashError, sent = [], unread = stream\<rparr>
         | Some hash \<Rightarrow>
             (case Sign ve hash of
                None \<Rightarrow>
                  \<lparr>decision = False, dp = [], err = Some SignError, sent = [], unread = stream\<rparr>
              | Some signature \<Rightarrow>
                  (let c' = c\<lparr>c_Signature := signature\<rparr>
                   in if \<not> Broadcast ve c'
                      then \<lparr>decision = False, dp = [], err = Some BroadcastError, sent = [],
                            unread = stream\<rparr>
                      else Execute_loop ve (\<not> choice) {} [c'] stream)))"

text \<open>
  The words of the claims: a choice is validly signed when its hash can be taken and
  its signature verifies; the emitters of the validly signed true choices of a list.
\<close>

definition validly_signed :: "vetoEngine \<Rightarrow> Choice \<Rightarrow> bool" where
  "validly_signed ve c =
     (case Choice_Hash ve c of
        None \<Rightarrow> False
      | Some hash \<Rightarrow> Verify ve (c_Emitter c) hash (c_Signature c))"

definition true_emitters :: "vetoEngine \<Rightarrow> Choice list \<Rightarrow> string set" where
  "true_emitters ve cs = set (map c_Emitter (filter (\<lambda>c. validly_signed ve c \<and> c_Choice c) cs))"

definition no_valid_false :: "vetoEngine \<Rightarrow> Choice list \<Rightarrow> bool" where
  "no_valid_false ve cs = list_all (\<lambda>c. \<not> (validly_signed ve c \<and> \<not> c_Choice c)) cs"

text \<open>\<open>Execute\<close> has reached the stream: its own choice was hashed, signed and broadcast.\<close>

definition started :: "vetoEngine \<Rightarrow> string \<Rightarrow> bool \<Rightarrow> Proof list \<Rightarrow> bool" where
  "started ve ident choice proofs =
     (let c = \<lparr>c_Identifier = ident, c_Emitter = Identity ve, c_Choice = choice,
                c_Proofs = proofs, c_Signature = []\<rparr>
      in case Choice_Hash ve c of
           None \<Rightarrow> False
         | Some hash \<Rightarrow>
             (case Sign ve hash of
                None \<Rightarrow> False
              | Some signature \<Rightarrow> Broadcast ve (c\<lparr>c_Signature := signature\<rparr>)))"

text \<open>
  An engine for concrete runs: a choice hashes to one byte, its vote; the signature
  of a hash is the hash; a signature verifies when it is the hash and the emitter is
  not \<open>''mallory''\<close>.
\<close>

definition testEngine :: "int \<Rightarrow> vetoEngine" where
  "testEngine n =
     \<lparr>Identity = ''self'',
      Hash = (\<lambda>c. Some [if c_Choice c then 1 else 0]),
      Sign = (\<lambda>h. Some h),
      Verify = (\<lambda>from h s. s = h \<and> from \<noteq> ''mallory''),
      Broadcast = (\<lambda>c. True),
      ve_threshold = n\<rparr>"

definition vote :: "string \<Rightarrow> string \<Rightarrow> bool \<Rightarrow> Proof list \<Rightarrow> message" where
  "vote ident emitter choice proofs =
     MsgChoice \<lparr>c_Identifier = ident, c_Emitter = emitter, c_Choice = choice,
                c_Proofs = proofs, c_Signature = [if choice then 1 else 0]\<rparr>"

text \<open>Two streams for concrete runs, as the network delivers them.\<close>

definition aProof :: Proof where
  "aProof = Proof_Query (Some \<lparr>q_Uuid = ''q'', q_Deadline = None\<rparr>)"

definition vetoStream :: "message list" where
  "vetoStream =
     [vote ''id'' ''a'' True [], vote ''other'' ''x'' False [], vote ''id'' ''mallory'' False [],
      MsgStartCheckpoint [''q''], vote ''id'' ''a'' True [], vote ''id'' ''b'' False [aProof],
      vote ''id'' ''c'' True []]"

definition agreeStream :: "message list" where
  "agreeStream =
     [vote ''id'' ''a'' True [], vote ''id'' ''mallory'' True [], vote ''id'' ''a'' True [],
      vote ''id'' ''b'' True [], vote ''id'' ''c'' False [aProof]]"

section \<open>Runs of the query store\<close>

text \<open>
  The calls that the engine makes on its query store, and what each returns. \<open>run\<close>
  makes the calls of a list in order, from a given store; \<open>n\<close> bounds the depth of the
  recursion of each call and \<open>now\<close> is the time of the run.
\<close>

datatype store_op =
    OpAddQuery Query
  | OpAddEndorsement Endorsement
  | OpIsApplicable string
  | OpCheckState string
  | OpCheckpointChoice "string list"
  | OpCheckpointDrop "string list"
  | OpEndorse string

datatype observation =
    Inserted bool
  | Added bool bool
  | Applicable bool
  | Checked bool "string list"
  | Chosen bool "Proof list"
  | Done

definition step ::
  "nat \<Rightarrow> int \<Rightarrow> queryStore \<Rightarrow> store_op \<Rightarrow> (observation \<times> queryStore) option" where
  "step n now qs op =
     (case op of
        OpAddQuery q \<Rightarrow> map_option (\<lambda>(b, qs'). (Inserted b, qs')) (AddQuery n qs q)
      | OpAddEndorsement e \<Rightarrow>
          map_option (\<lambda>((p, i), qs'). (Added p i, qs')) (AddEndorsement n qs e)
      | OpIsApplicable uuid \<Rightarrow>
          map_option (\<lambda>(b, qs'). (Applicable b, qs')) (isApplicable n qs uuid)
      | OpCheckState uuid \<Rightarrow>
          map_option (\<lambda>((c, cp), qs'). (Checked c cp, qs')) (CheckState n now qs uuid)
      | OpCheckpointChoice uuids \<Rightarrow>
          map_option (\<lambda>((c, ps), qs'). (Chosen c ps, qs')) (CheckpointChoice n qs uuids)
      | OpCheckpointDrop uuids \<Rightarrow> map_option (\<lambda>qs'. (Done, qs')) (CheckpointDrop n qs uuids)
      | OpEndorse uuid \<Rightarrow> Some (Done, Endorse qs uuid))"

fun run ::
  "nat \<Rightarrow> int \<Rightarrow> queryStore \<Rightarrow> store_op list \<Rightarrow> (observation list \<times> queryStore) option" where
  "run n now qs [] = Some ([], qs)"
| "run n now qs (op # ops) =
     (case step n now qs op of
        None \<Rightarrow> None
      | Some (ob, qs') \<Rightarrow>
          (case run n now qs' ops of
             None \<Rightarrow> None
           | Some (obs, qs'') \<Rightarrow> Some (ob # obs, qs'')))"

definition observations ::
  "nat \<Rightarrow> int \<Rightarrow> queryStore \<Rightarrow> store_op list \<Rightarrow> observation list option" where
  "observations n now qs ops = map_option fst (run n now qs ops)"

definition final_store ::
  "nat \<Rightarrow> int \<Rightarrow> queryStore \<Rightarrow> store_op list \<Rightarrow> queryStore option" where
  "final_store n now qs ops = map_option snd (run n now qs ops)"

text \<open>The state of a query in a store, when the store holds a record for it.\<close>

definition state_of :: "queryStore option \<Rightarrow> string \<Rightarrow> queryState option" where
  "state_of qs uuid =
     (case qs of
        None \<Rightarrow> None
      | Some qs' \<Rightarrow> map_option State (queries qs' uuid))"

text \<open>A new store with the threshold set, as the engine and the tests make it.\<close>

definition storeWith :: "int \<Rightarrow> queryStore" where
  "storeWith w = newQueryStore\<lparr>threshold := w\<rparr>"

definition endorse :: "string \<Rightarrow> string \<Rightarrow> string list \<Rightarrow> store_op" where
  "endorse uuid emitter conditions =
     OpAddEndorsement \<lparr>e_Uuid = uuid, e_Emitter = emitter, e_Conditions = conditions\<rparr>"

subsection \<open>The scenario of Figure 1\<close>

text \<open>
  The test of \<open>isApplicable\<close> "from the original paper (figure 1)": the queries \<open>q\<close>
  and \<open>r\<close>, the endorsements of \<open>q\<close> by 1 and 2, those of \<open>r\<close> by 1 and 2 under the
  condition \<open>q\<close> and by 4 under none; the endorsement of \<open>q\<close> by 3 comes last.
\<close>

definition figure1 :: "Query \<Rightarrow> Query \<Rightarrow> store_op list" where
  "figure1 q r =
     [OpAddQuery q, OpAddQuery r,
      endorse (q_Uuid q) ''1'' [], endorse (q_Uuid q) ''2'' [],
      endorse (q_Uuid r) ''1'' [q_Uuid q], endorse (q_Uuid r) ''2'' [q_Uuid q],
      endorse (q_Uuid r) ''4'' []]"

definition figure1_last :: "Query \<Rightarrow> store_op" where
  "figure1_last q = endorse (q_Uuid q) ''3'' []"

section \<open>Query store: what the calls keep\<close>

text \<open>
  Two records are the same up to their caches and their flags when they agree on the
  query, the dependents, the state and the endorsements received (the cached results
  of the record and of its endorsements, and the flags \<open>Endorsed\<close> and \<open>Applied\<close>,
  may differ). Two stores are the same up to caches and flags when their records are,
  key by key, and they agree on everything else.
\<close>

definition same_record :: "queryInfo \<Rightarrow> queryInfo \<Rightarrow> bool" where
  "same_record a b =
     (qi_Query b = qi_Query a \<and> Dependents b = Dependents a \<and> State b = State a \<and>
      map ei_Endorsement (Endorsements b) = map ei_Endorsement (Endorsements a))"

definition same_store :: "queryStore \<Rightarrow> queryStore \<Rightarrow> bool" where
  "same_store qs qs' =
     ((\<forall>k. rel_option same_record (queries qs k) (queries qs' k)) \<and>
      pendingDependencies qs' = pendingDependencies qs \<and>
      pendingEndorsements qs' = pendingEndorsements qs \<and>
      threshold qs' = threshold qs)"

text \<open>
  Two stores have the same graph when their records agree, key by key, on the query,
  the dependents and the endorsements received (the states may differ too), and they
  agree on the pending dependencies and the parked endorsements.
\<close>

definition same_node :: "queryInfo \<Rightarrow> queryInfo \<Rightarrow> bool" where
  "same_node a b =
     (qi_Query b = qi_Query a \<and> Dependents b = Dependents a \<and>
      map ei_Endorsement (Endorsements b) = map ei_Endorsement (Endorsements a))"

definition same_graph :: "queryStore \<Rightarrow> queryStore \<Rightarrow> bool" where
  "same_graph qs qs' =
     ((\<forall>k. rel_option same_node (queries qs k) (queries qs' k)) \<and>
      pendingDependencies qs' = pendingDependencies qs \<and>
      pendingEndorsements qs' = pendingEndorsements qs)"

text \<open>Every record of the store holds a query, and is stored under that query's uuid.\<close>

definition keyed :: "queryStore \<Rightarrow> bool" where
  "keyed qs = (\<forall>k qi. queries qs k = Some qi \<longrightarrow> (\<exists>q. qi_Query qi = Some q \<and> q_Uuid q = k))"

text \<open>
  The dependency index: when a stored endorsement of \<open>r\<close> lists another query \<open>c\<close>
  among its conditions, \<open>r\<close> is among the dependents of \<open>c\<close>, or parked among the
  pending dependencies of \<open>c\<close> as long as \<open>c\<close> is unknown.
\<close>

definition conditioned_on :: "queryInfo \<Rightarrow> string \<Rightarrow> bool" where
  "conditioned_on qi c = (\<exists>e \<in> set (Endorsements qi). c \<in> set (e_Conditions (ei_Endorsement e)))"

definition deps_indexed :: "queryStore \<Rightarrow> bool" where
  "deps_indexed qs =
     (\<forall>r qi c. queries qs r = Some qi \<and> conditioned_on qi c \<and> c \<noteq> r \<longrightarrow>
        (case queries qs c of
           Some qc \<Rightarrow> r \<in> set (Dependents qc)
         | None \<Rightarrow> r \<in> set (pendingDependencies_at qs c)))"

definition store_inv :: "queryStore \<Rightarrow> bool" where
  "store_inv qs = (keyed qs \<and> finite (dom (queries qs)) \<and> deps_indexed qs)"

text \<open>The store after \<^verbatim>\<open>qs.queries[qi.Uuid] = qi\<close>, which \<open>cascadeMark\<close> skips for a nil query.\<close>

definition store_put :: "queryStore \<Rightarrow> queryInfo \<Rightarrow> queryStore" where
  "store_put qs qi = (case qi_Query qi of None \<Rightarrow> qs | Some q \<Rightarrow> set_query qs (q_Uuid q) qi)"

definition fresh_keys :: "queryStore \<Rightarrow> string set" where
  "fresh_keys qs = {k. \<exists>qi. queries qs k = Some qi \<and> fresh (qi_cache qi)}"

text \<open>The store in which the records of the uuids of \<open>D\<close> are in the dropped state.\<close>

definition mark_dropped :: "string set \<Rightarrow> queryStore \<Rightarrow> queryStore" where
  "mark_dropped D qs =
     qs\<lparr>queries := (\<lambda>k. map_option (\<lambda>qi. if k \<in> D then qi\<lparr>State := qDropped\<rparr> else qi)
                        (queries qs k))\<rparr>"

text \<open>
  What \<open>commit\<close> makes of the states: the record of \<open>uuid\<close> is committed, then the
  records of its dependents are dropped.
\<close>

definition committed_store :: "queryStore \<Rightarrow> string \<Rightarrow> queryStore" where
  "committed_store qs uuid =
     mark_dropped (set (Dependents (queries_at qs uuid)))
       (set_query qs uuid ((queries_at qs uuid)\<lparr>State := qCommitted\<rparr>))"

text \<open>
  What registering the conditions \<open>C\<close> of an endorsement of \<open>u\<close> does to a store:
  the records keep everything but their dependents, which only grow; every known
  query of \<open>C\<close> has \<open>u\<close> among its dependents; the pending dependencies only grow,
  and every unknown query of \<open>C\<close> has \<open>u\<close> among its pending dependencies.
\<close>

definition grown_record :: "string \<Rightarrow> bool \<Rightarrow> queryInfo \<Rightarrow> queryInfo \<Rightarrow> bool" where
  "grown_record u listed a b =
     (qi_Query b = qi_Query a \<and> Endorsements b = Endorsements a \<and> State b = State a \<and>
      Endorsed b = Endorsed a \<and> Applied b = Applied a \<and> qi_cache b = qi_cache a \<and>
      set (Dependents a) \<subseteq> set (Dependents b) \<and>
      (listed \<longrightarrow> u \<in> set (Dependents b)))"

definition deps_grown :: "string \<Rightarrow> string set \<Rightarrow> queryStore \<Rightarrow> queryStore \<Rightarrow> bool" where
  "deps_grown u C qs qs' =
     ((\<forall>k. rel_option (grown_record u (k \<in> C)) (queries qs k) (queries qs' k)) \<and>
      (\<forall>c. set (pendingDependencies_at qs c) \<subseteq> set (pendingDependencies_at qs' c)) \<and>
      (\<forall>c \<in> C. queries qs c = None \<longrightarrow> u \<in> set (pendingDependencies_at qs' c)) \<and>
      pendingEndorsements qs' = pendingEndorsements qs \<and>
      threshold qs' = threshold qs)"

definition conds_of :: "queryInfo \<Rightarrow> string set" where
  "conds_of qi = (\<Union>e \<in> set (Endorsements qi). set (e_Conditions (ei_Endorsement e)))"

subsection \<open>The endorsements that a store retains\<close>

text \<open>
  What \<open>addEndorsementInternal\<close> does to the list of endorsements of a query: an
  endorsement is appended unless the list holds one of the same emitter.
\<close>

definition accept :: "Endorsement list \<Rightarrow> Endorsement \<Rightarrow> Endorsement list" where
  "accept es e = (if e_Emitter e \<in> set (map e_Emitter es) then es else es @ [e])"

text \<open>
  In the words of the spec: of a list of endorsements in their order of arrival, the
  first of each emitter. An endorsement is retained when no earlier endorsement of
  the list has its emitter.
\<close>

definition first_per_emitter :: "Endorsement list \<Rightarrow> Endorsement list" where
  "first_per_emitter es =
     map (\<lambda>i. es ! i)
       (filter (\<lambda>i. \<forall>j < i. e_Emitter (es ! j) \<noteq> e_Emitter (es ! i)) [0 ..< length es])"

text \<open>The endorsements that a run has given to the store, in their order.\<close>

fun arrivals :: "store_op list \<Rightarrow> Endorsement list" where
  "arrivals [] = []"
| "arrivals (OpAddEndorsement e # ops) = e # arrivals ops"
| "arrivals (_ # ops) = arrivals ops"

text \<open>
  A store tracks a history of arrivals when every record holds the endorsements of
  its query accepted in their order, and the parked endorsements are those of the
  unknown queries, in their order.
\<close>

definition tracks :: "Endorsement list \<Rightarrow> queryStore \<Rightarrow> bool" where
  "tracks hist qs =
     ((\<forall>u qi. queries qs u = Some qi \<longrightarrow>
         map ei_Endorsement (Endorsements qi) =
           foldl accept [] (filter (\<lambda>e. e_Uuid e = u) hist)) \<and>
      pendingEndorsements qs = filter (\<lambda>e. queries qs (e_Uuid e) = None) hist)"

text \<open>The calls that add to the store.\<close>

fun is_add :: "store_op \<Rightarrow> bool" where
  "is_add (OpAddQuery q) = True"
| "is_add (OpAddEndorsement e) = True"
| "is_add _ = False"

text \<open>The endorsements that a store holds for a query, when it holds the query.\<close>

definition retained :: "queryStore \<Rightarrow> string \<Rightarrow> Endorsement list option" where
  "retained qs u = map_option (\<lambda>qi. map ei_Endorsement (Endorsements qi)) (queries qs u)"

section \<open>Query store: concrete runs\<close>

definition query :: "string \<Rightarrow> Query" where
  "query uuid = \<lparr>q_Uuid = uuid, q_Deadline = None\<rparr>"

text \<open>
  Whether a store holds, for the query \<open>r\<close>, an endorsement that lists \<open>u\<close> among
  its conditions.
\<close>

definition conditioned :: "queryStore \<Rightarrow> string \<Rightarrow> string \<Rightarrow> bool" where
  "conditioned qs r u = (case queries qs r of None \<Rightarrow> False | Some qi \<Rightarrow> conditioned_on qi u)"

text \<open>
  A chain of conditions, threshold 1: \<open>q\<close> is endorsed with no condition, \<open>r\<close> under
  the condition \<open>q\<close>, and \<open>s\<close> under the condition \<open>r\<close>.
\<close>

definition chain :: "store_op list" where
  "chain =
     [OpAddQuery (query ''q''), OpAddQuery (query ''r''), OpAddQuery (query ''s''),
      endorse ''q'' ''1'' [], endorse ''r'' ''1'' [''q''], endorse ''s'' ''1'' [''r'']]"

definition chain_store :: queryStore where
  "chain_store = the (final_store 5 0 (storeWith 1) chain)"

definition chain_committed :: queryStore where
  "chain_committed = the (map_option snd (CheckState 5 0 chain_store ''q''))"

text \<open>
  An endorsement that lists its own query among its conditions, threshold 1: \<open>r\<close> is
  committed; \<open>u\<close> is endorsed by \<open>a\<close> under the conditions \<open>r\<close> and \<open>u\<close>, and by
  \<open>b\<close> under none, before \<open>u\<close> itself arrives.
\<close>

definition own_condition :: "store_op list" where
  "own_condition =
     [OpAddQuery (query ''r''), endorse ''r'' ''1'' [], OpCheckState ''r'',
      endorse ''u'' ''a'' [''r'', ''u''], endorse ''u'' ''b'' [], OpAddQuery (query ''u''),
      OpIsApplicable ''u'']"

text \<open>Endorsements of one emitter for the same query, some of them parked.\<close>

definition repeated :: "store_op list" where
  "repeated =
     [endorse ''q'' ''a'' [], endorse ''q'' ''a'' [''x''], endorse ''r'' ''a'' [],
      OpAddQuery (query ''q''), endorse ''q'' ''a'' [''y''], endorse ''q'' ''b'' []]"

section \<open>Snapshots: what a store is after a dump and a load\<close>

text \<open>A record with every cached result at its zero value: not fresh, and false.\<close>

definition without_caches :: "queryInfo \<Rightarrow> queryInfo" where
  "without_caches qi =
     qi\<lparr>Endorsements := map (\<lambda>e. e\<lparr>ei_cache := cache_zero\<rparr>) (Endorsements qi),
        qi_cache := cache_zero\<rparr>"

text \<open>
  The store \<open>s\<close> with every cached result at its zero value, and with the threshold
  \<open>w\<close>.
\<close>

definition restored :: "int \<Rightarrow> queryStore \<Rightarrow> queryStore" where
  "restored w s = s\<lparr>queries := map_option without_caches \<circ> queries s, threshold := w\<rparr>"

text \<open>
  A store in which a result is cached, threshold 1: \<open>q\<close> has one endorsement, and its
  applicability has been asked for.
\<close>

definition cached :: "store_op list" where
  "cached = [OpAddQuery (query ''q''), endorse ''q'' ''1'' [], OpIsApplicable ''q'']"

definition cached_store :: queryStore where
  "cached_store = the (final_store 3 0 (storeWith 1) cached)"

chapter \<open>Properties\<close>

section \<open>Trust addition\<close>

lemmas trust_consts =
  TrustNONE_def TrustLOW_def TrustHIGH_def TrustULTIMATE_def TrustThreshold_def

lemma TrustLevel_Add_ultimate:
  "t = TrustULTIMATE \<or> t2 = TrustULTIMATE \<Longrightarrow> TrustLevel_Add t t2 = TrustULTIMATE"
  by (simp add: TrustLevel_Add_def)

lemma TrustLevel_Add_saturated:
  "t \<noteq> TrustULTIMATE \<Longrightarrow> t2 \<noteq> TrustULTIMATE \<Longrightarrow> TrustHIGH \<le> t \<or> TrustHIGH \<le> t2 \<Longrightarrow>
   TrustLevel_Add t t2 = TrustHIGH"
  by (auto simp: TrustLevel_Add_def TrustThreshold_def)

text \<open>
  Between the named levels NONE and LOW, and the level 2 that LOW plus LOW gives, the
  sum stays within HIGH as long as one operand is a named level.
\<close>

lemma TrustLevel_Add_named_le_HIGH:
  "t \<in> {TrustNONE, TrustLOW, 2} \<Longrightarrow> t2 \<in> {TrustNONE, TrustLOW} \<Longrightarrow>
   TrustLevel_Add t t2 \<le> TrustHIGH"
  by (auto simp: TrustLevel_Add_def trust_consts word_le_nat_alt)

text \<open>
  C7. The claim: when neither operand is ULTIMATE the sum is \<open>min HIGH (a + b)\<close>, so
  it never exceeds HIGH. The saturation test of \<open>Add\<close> looks at each operand alone,
  not at the sum, so two operands below HIGH whose sum is above HIGH are added
  unchanged: at \<open>a = b = 2\<close> (the level that LOW plus LOW gives) the code returns 4,
  above HIGH, where the claim gives 3.
\<close>

theorem TrustLevel_Add_exceeds_HIGH:
  "TrustLevel_Add TrustLOW TrustLOW = 2
   \<and> TrustLevel_Add 2 2 = 4
   \<and> TrustLevel_Add 2 2 \<noteq> TrustLevel_Min TrustHIGH (2 + 2)
   \<and> TrustHIGH < TrustLevel_Add 2 2"
  by (simp add: TrustLevel_Add_def TrustLevel_Min_def trust_consts word_le_nat_alt
      word_less_nat_alt)

section \<open>Envelope rejection\<close>

lemma length_typeIdentifiers: "length typeIdentifiers = 11"
  by (simp add: typeIdentifiers_def)

lemma ReadUvarint_loop_fails:
  "(\<exists>e r. ReadUvarint_loop i x s bs = (Inl e, r)) \<longleftrightarrow>
     (let k = length (takeWhile (\<lambda>b. \<not> b < 0x80) bs)
      in k = length bs \<or> i + k > 9 \<or> (i + k = 9 \<and> bs ! k > 1))"
proof (induction bs arbitrary: i x s)
  case Nil
  then show ?case by simp
next
  case (Cons b bs)
  show ?case
  proof (cases "b < 0x80")
    case True
    then show ?thesis by auto
  next
    case False
    then show ?thesis using Cons.IH [of "i + 1"] by (simp add: Let_def)
  qed
qed

lemma ReadUvarint_fails: "(\<exists>e r. ReadUvarint bs = (Inl e, r)) \<longleftrightarrow> varint_bad bs"
  unfolding ReadUvarint_def varint_bad_def using ReadUvarint_loop_fails [of 0 0 0 bs]
  by (auto simp: Let_def)

lemma byte_le_11_cases:
  fixes b :: byte
  assumes "\<not> b > 11"
  shows "b \<in> {0, 1, 2, 3, 4, 5, 6, 7, 8, 9, 10, 11}"
proof -
  have "unat b \<le> 11" using assms by (simp add: word_less_nat_alt)
  then have "unat b = 0 \<or> unat b = 1 \<or> unat b = 2 \<or> unat b = 3 \<or> unat b = 4 \<or> unat b = 5
      \<or> unat b = 6 \<or> unat b = 7 \<or> unat b = 8 \<or> unat b = 9 \<or> unat b = 10 \<or> unat b = 11"
    by arith
  then have "of_nat (unat b) \<in> {0, 1, 2, 3, 4, 5, 6, 7, 8, 9, 10, (11 :: byte)}"
    by (elim disjE) simp_all
  then show ?thesis by simp
qed

lemma supported_tag_type:
  fixes b :: byte
  assumes "b \<in> {1, 2, 3, 7, 8, 10}"
  shows "unat b < length typeIdentifiers"
    and "MessageType (typeIdentifiers ! unat b) = Some (typeIdentifiers ! unat b)"
  using assms by (auto simp: typeIdentifiers_def MessageType_def registeredTypes_def)

text \<open>
  The reserved tags 4, 5, 6 and 9 and the tag 11 are not rejected: \<open>Unpack\<close> panics on
  them, whatever follows. The program's own test of invalid input tries the tag
  \<open>0xf2\<close> only.
\<close>

lemma Unpack_reserved_tag_panics:
  "b \<in> {4, 5, 6, 9, 11} \<Longrightarrow> Unpack U (b # rest) = Panicked"
  by (auto simp: Unpack_def typeIdentifiers_def MessageType_def registeredTypes_def)

text \<open>
  C6 (as stated, refuted). The claim lists the cases in which \<open>Unpack\<close> returns an
  error and says there are no others. \<open>Unpack\<close> ends with
  \<^verbatim>\<open>err = proto.Unmarshal(buf, m); return m, err\<close>: a packet with a supported tag, a
  well-formed length and a body of that length is also rejected when the body does not
  decode. The packet \<open>[1, 1, 0xff]\<close> is in none of the listed cases and is rejected.
\<close>

theorem Unpack_rejects_undecodable_body:
  "is_failure (Unpack emptyBodyDecoder [0x01, 0x01, 0xff])
   \<and> \<not> envelope_rejected [0x01, 0x01, 0xff]"
  by (simp add: is_failure_def Unpack_def typeIdentifiers_def MessageType_def
      registeredTypes_def ReadUvarint_def ReadFull_def emptyBodyDecoder_def
      envelope_rejected_def varint_bad_def supportedTags_def)

text \<open>
  C6 (amended). For every input whose tag is not one of 4, 5, 6, 9 and 11, \<open>Unpack\<close>
  does not panic, and it returns an error exactly when the input is empty, the tag is
  zero, the tag is above 11, the length varint is truncated or malformed, the declared
  length exceeds \<open>2^30\<close>, the rest is shorter than the declared length, or the body
  of the declared length does not decode as the message type of the tag.
\<close>

theorem Unpack_fails_iff:
  assumes "inp = [] \<or> hd inp \<notin> {4, 5, 6, 9, 11}"
  shows "Unpack U inp \<noteq> Panicked \<and>
    (is_failure (Unpack U inp) \<longleftrightarrow>
       inp = [] \<or> hd inp = 0 \<or> hd inp > 11 \<or> varint_bad (tl inp) \<or>
       (case ReadUvarint (tl inp) of
          (Inr l, rest) \<Rightarrow>
            2 ^ 30 < unat l \<or> length rest < unat l \<or>
            U (typeIdentifiers ! unat (hd inp)) (take (unat l) rest) = None
        | (Inl e, rest) \<Rightarrow> False))"
proof (cases inp)
  case Nil
  then show ?thesis by (simp add: Unpack_def is_failure_def)
next
  case (Cons b rest)
  show ?thesis
  proof (cases "b = 0 \<or> b > 11")
    case True
    then show ?thesis using Cons
      by (auto simp: Unpack_def is_failure_def typeIdentifiers_def)
  next
    case False
    with assms Cons byte_le_11_cases [of b] have tag: "b \<in> {1, 2, 3, 7, 8, 10}"
      by auto
    note ty = supported_tag_type [OF tag]
    obtain r rest' where rd: "ReadUvarint rest = (r, rest')" by (cases "ReadUvarint rest")
    show ?thesis
    proof (cases r)
      case (Inl e)
      then have "varint_bad rest" using rd ReadUvarint_fails [of rest] by auto
      then show ?thesis using Cons False ty rd Inl
        by (simp add: Unpack_def is_failure_def length_typeIdentifiers)
    next
      case (Inr l)
      then have nb: "\<not> varint_bad rest" using rd ReadUvarint_fails [of rest] by auto
      have big: "l > push_bit 30 1 \<longleftrightarrow> unat l > 2 ^ 30"
        by (simp add: word_less_nat_alt)
      show ?thesis using Cons False ty rd Inr nb big
        by (auto simp: Unpack_def is_failure_def ReadFull_def length_typeIdentifiers
            split: option.splits)
    qed
  qed
qed

theorem Unpack_fails_iff_witness:
  "Unpack emptyBodyDecoder [0x01, 0x02, 0xff] \<noteq> Panicked
   \<and> is_failure (Unpack emptyBodyDecoder [0x01, 0x02, 0xff])
   \<and> length [0xff :: byte] < unat (2 :: 64 word)
   \<and> Unpack emptyBodyDecoder [0x01, 0x00] \<noteq> Panicked
   \<and> \<not> is_failure (Unpack emptyBodyDecoder [0x01, 0x00])"
  using Unpack_fails_iff [of "[0x01, 0x02, 0xff]" emptyBodyDecoder]
    Unpack_fails_iff [of "[0x01, 0x00]" emptyBodyDecoder]
  by (simp add: ReadUvarint_def varint_bad_def typeIdentifiers_def emptyBodyDecoder_def)

section \<open>BBC veto: the decision\<close>

lemma true_emitters_Cons:
  "true_emitters ve (c # cs) =
     (if validly_signed ve c \<and> c_Choice c then insert (c_Emitter c) (true_emitters ve cs)
      else true_emitters ve cs)"
  by (simp add: true_emitters_def)

lemma finite_true_emitters: "finite (true_emitters ve cs)"
  by (simp add: true_emitters_def)

lemma true_emitters_append:
  "true_emitters ve (cs @ ds) = true_emitters ve cs \<union> true_emitters ve ds"
  by (simp add: true_emitters_def)

text \<open>
  While no validly signed false choice is read and the threshold is not reached, the
  loop reads on and collects the emitters of the validly signed true choices.
\<close>

lemma Execute_loop_reads_on:
  assumes "finite R"
    and "no_valid_false ve pre"
    and "int (card (R \<union> true_emitters ve pre)) < ve_threshold ve"
  shows "Execute_loop ve sentF R out (pre @ rest) =
         Execute_loop ve sentF (R \<union> true_emitters ve pre) out rest"
  using assms
proof (induction pre arbitrary: R)
  case Nil
  then show ?case by (simp add: true_emitters_def)
next
  case (Cons c pre)
  from Cons.prems(2) have nvf: "no_valid_false ve pre"
    and c_ok: "\<not> (validly_signed ve c \<and> \<not> c_Choice c)"
    by (simp_all add: no_valid_false_def)
  show ?case
  proof (cases "validly_signed ve c")
    case False
    then have skip: "Execute_loop ve sentF R out ((c # pre) @ rest) =
        Execute_loop ve sentF R out (pre @ rest)"
      by (auto simp: validly_signed_def split: option.splits)
    from False have te: "true_emitters ve (c # pre) = true_emitters ve pre"
      by (simp add: true_emitters_Cons)
    show ?thesis using Cons.IH [OF Cons.prems(1) nvf] Cons.prems(3) skip te by simp
  next
    case True
    with c_ok have ch: "c_Choice c" by simp
    let ?R' = "insert (c_Emitter c) R"
    have te: "R \<union> true_emitters ve (c # pre) = ?R' \<union> true_emitters ve pre"
      using True ch by (simp add: true_emitters_Cons)
    have fin: "finite (?R' \<union> true_emitters ve pre)"
      using Cons.prems(1) by (simp add: finite_true_emitters)
    have "card ?R' \<le> card (?R' \<union> true_emitters ve pre)"
      by (rule card_mono [OF fin]) blast
    with Cons.prems(3) te have below: "int (card ?R') \<noteq> ve_threshold ve" by simp
    have step: "Execute_loop ve sentF R out ((c # pre) @ rest) =
        Execute_loop ve sentF ?R' out (pre @ rest)"
      using True ch below by (auto simp: validly_signed_def Let_def split: option.splits)
    have "Execute_loop ve sentF ?R' out (pre @ rest) =
        Execute_loop ve sentF (?R' \<union> true_emitters ve pre) out rest"
      using Cons.IH [of ?R'] Cons.prems(1) nvf Cons.prems(3) te by simp
    then show ?thesis using step te by simp
  qed
qed

lemma Execute_started:
  "started ve ident choice proofs \<Longrightarrow>
   \<exists>out. Execute ve ms ident choice proofs = Execute_loop ve (\<not> choice) {} out (Accept ident ms)"
  by (auto simp: started_def Execute_def Let_def split: option.splits)

text \<open>
  C4. \<open>Execute\<close> has broadcast its own choice and reads the stream. A message is
  received when the loop reads it, and the loop reads nothing after it has decided.
  Let \<open>c\<close> be a validly signed choice of the stream, with no validly signed false
  choice before it and fewer than \<open>n\<close> distinct emitters of validly signed true
  choices before it. If \<open>c\<close> is a false choice, \<open>Execute\<close> returns false with exactly
  the proofs of \<open>c\<close>, having read the stream up to \<open>c\<close>. If \<open>c\<close> is a true choice
  that brings the number of distinct emitters to \<open>n\<close>, \<open>Execute\<close> returns true with
  no proofs, having read the stream up to \<open>c\<close>.
\<close>

theorem Execute_decides:
  assumes "started ve ident choice proofs"
    and "Accept ident ms = pre @ c # rest"
    and "no_valid_false ve pre"
    and "int (card (true_emitters ve pre)) < ve_threshold ve"
    and "validly_signed ve c"
  shows "(\<not> c_Choice c \<longrightarrow>
            decision (Execute ve ms ident choice proofs) = False \<and>
            dp (Execute ve ms ident choice proofs) = c_Proofs c \<and>
            err (Execute ve ms ident choice proofs) = None \<and>
            unread (Execute ve ms ident choice proofs) = rest) \<and>
         (c_Choice c \<and> int (card (true_emitters ve (pre @ [c]))) = ve_threshold ve \<longrightarrow>
            decision (Execute ve ms ident choice proofs) = True \<and>
            dp (Execute ve ms ident choice proofs) = [] \<and>
            err (Execute ve ms ident choice proofs) = None \<and>
            unread (Execute ve ms ident choice proofs) = rest)"
proof -
  from Execute_started [OF assms(1)] obtain out where
    ex: "Execute ve ms ident choice proofs =
         Execute_loop ve (\<not> choice) {} out (Accept ident ms)" ..
  have "Execute_loop ve (\<not> choice) {} out (pre @ c # rest) =
        Execute_loop ve (\<not> choice) ({} \<union> true_emitters ve pre) out (c # rest)"
    by (rule Execute_loop_reads_on) (use assms in simp_all)
  with ex assms(2) have run: "Execute ve ms ident choice proofs =
      Execute_loop ve (\<not> choice) (true_emitters ve pre) out (c # rest)"
    by simp
  have ins: "c_Choice c \<Longrightarrow>
      insert (c_Emitter c) (true_emitters ve pre) = true_emitters ve (pre @ [c])"
    using assms(5) by (simp add: true_emitters_append true_emitters_Cons true_emitters_def)
  show ?thesis
  proof (intro conjI impI)
    assume f: "\<not> c_Choice c"
    with assms(5) run show "decision (Execute ve ms ident choice proofs) = False"
      and "dp (Execute ve ms ident choice proofs) = c_Proofs c"
      and "err (Execute ve ms ident choice proofs) = None"
      and "unread (Execute ve ms ident choice proofs) = rest"
      by (auto simp: validly_signed_def split: option.splits)
  next
    assume t: "c_Choice c \<and> int (card (true_emitters ve (pre @ [c]))) = ve_threshold ve"
    with assms(5) run ins show "decision (Execute ve ms ident choice proofs) = True"
      and "dp (Execute ve ms ident choice proofs) = []"
      and "err (Execute ve ms ident choice proofs) = None"
      and "unread (Execute ve ms ident choice proofs) = rest"
      by (auto simp: validly_signed_def Let_def split: option.splits)
  qed
qed

lemmas veto_eval = testEngine_def vote_def Accept_def acceptor_def List.map_filter_def
  started_def Choice_Hash_def validly_signed_def no_valid_false_def true_emitters_def

theorem Execute_decides_witness:
  "started (testEngine 2) ''id'' True []
   \<and> Accept ''id'' vetoStream =
       Accept ''id'' (take 5 vetoStream) @
       \<lparr>c_Identifier = ''id'', c_Emitter = ''b'', c_Choice = False, c_Proofs = [aProof],
        c_Signature = [0]\<rparr> # Accept ''id'' (drop 6 vetoStream)
   \<and> no_valid_false (testEngine 2) (Accept ''id'' (take 5 vetoStream))
   \<and> int (card (true_emitters (testEngine 2) (Accept ''id'' (take 5 vetoStream)))) < 2
   \<and> decision (Execute (testEngine 2) vetoStream ''id'' True []) = False
   \<and> dp (Execute (testEngine 2) vetoStream ''id'' True []) = [aProof]
   \<and> err (Execute (testEngine 2) vetoStream ''id'' True []) = None
   \<and> unread (Execute (testEngine 2) vetoStream ''id'' True []) = Accept ''id'' (drop 6 vetoStream)
   \<and> Accept ''id'' agreeStream =
       Accept ''id'' (take 3 agreeStream) @
       \<lparr>c_Identifier = ''id'', c_Emitter = ''b'', c_Choice = True, c_Proofs = [],
        c_Signature = [1]\<rparr> # Accept ''id'' (drop 4 agreeStream)
   \<and> no_valid_false (testEngine 2) (Accept ''id'' (take 3 agreeStream))
   \<and> int (card (true_emitters (testEngine 2) (Accept ''id'' (take 3 agreeStream)))) < 2
   \<and> int (card (true_emitters (testEngine 2) (Accept ''id'' (take 4 agreeStream)))) = 2
   \<and> decision (Execute (testEngine 2) agreeStream ''id'' True []) = True
   \<and> dp (Execute (testEngine 2) agreeStream ''id'' True []) = []
   \<and> err (Execute (testEngine 2) agreeStream ''id'' True []) = None
   \<and> unread (Execute (testEngine 2) agreeStream ''id'' True []) = Accept ''id'' (drop 4 agreeStream)"
  using Execute_decides [of "testEngine 2" "''id''" True "[]" vetoStream
      "Accept ''id'' (take 5 vetoStream)"
      "\<lparr>c_Identifier = ''id'', c_Emitter = ''b'', c_Choice = False, c_Proofs = [aProof],
        c_Signature = [0]\<rparr>" "Accept ''id'' (drop 6 vetoStream)"]
    Execute_decides [of "testEngine 2" "''id''" True "[]" agreeStream
      "Accept ''id'' (take 3 agreeStream)"
      "\<lparr>c_Identifier = ''id'', c_Emitter = ''b'', c_Choice = True, c_Proofs = [],
        c_Signature = [1]\<rparr>" "Accept ''id'' (drop 4 agreeStream)"]
  by (simp add: veto_eval vetoStream_def agreeStream_def)

text \<open>
  C9. \<open>Execute\<close> has broadcast its own choice and reads the stream. If the stream is
  closed with no validly signed false choice in it and with fewer than \<open>n\<close> distinct
  emitters of validly signed true choices, \<open>Execute\<close> reads it to its end and returns
  true, with nil proofs and a nil error: what it returns when all \<open>n\<close> participants
  have said true.
\<close>

theorem Execute_stream_closed:
  assumes "started ve ident choice proofs"
    and "no_valid_false ve (Accept ident ms)"
    and "int (card (true_emitters ve (Accept ident ms))) < ve_threshold ve"
  shows "decision (Execute ve ms ident choice proofs) = True \<and>
         dp (Execute ve ms ident choice proofs) = [] \<and>
         err (Execute ve ms ident choice proofs) = None \<and>
         unread (Execute ve ms ident choice proofs) = []"
proof -
  from Execute_started [OF assms(1)] obtain out where
    ex: "Execute ve ms ident choice proofs =
         Execute_loop ve (\<not> choice) {} out (Accept ident ms)" ..
  have "Execute_loop ve (\<not> choice) {} out (Accept ident ms @ []) =
        Execute_loop ve (\<not> choice) ({} \<union> true_emitters ve (Accept ident ms)) out []"
    by (rule Execute_loop_reads_on) (use assms in simp_all)
  with ex show ?thesis by simp
qed

theorem Execute_stream_closed_witness:
  "started (testEngine 3) ''id'' True []
   \<and> no_valid_false (testEngine 3) (Accept ''id'' (take 5 vetoStream))
   \<and> int (card (true_emitters (testEngine 3) (Accept ''id'' (take 5 vetoStream)))) < 3
   \<and> decision (Execute (testEngine 3) (take 5 vetoStream) ''id'' True []) = True
   \<and> dp (Execute (testEngine 3) (take 5 vetoStream) ''id'' True []) = []
   \<and> err (Execute (testEngine 3) (take 5 vetoStream) ''id'' True []) = None
   \<and> unread (Execute (testEngine 3) (take 5 vetoStream) ''id'' True []) = []"
  using Execute_stream_closed [of "testEngine 3" "''id''" True "[]" "take 5 vetoStream"]
  by (simp add: veto_eval vetoStream_def)

section \<open>Query store: the scenario of Figure 1\<close>

lemmas store_eval = observations_def final_store_def state_of_def step_def endorse_def
  storeWith_def newQueryStore_def AddQuery_def AddEndorsement_def addEndorsementInternal_def
  queryInfo_zero_def queries_at_def pendingDependencies_at_def set_query_def cache_zero_def
  cache_Set_def cache_Mark_def addToSet_def markEndorsement_def CheckState_def
  checkSpeculativeState_def commit_def drop_query_def Endorse_def ExpiredSince_def

text \<open>
  C1. Threshold 3, two queries \<open>q\<close> and \<open>r\<close> of different uuids. After \<open>q\<close>, \<open>r\<close>
  and all endorsements but the third of \<open>q\<close>, \<open>r\<close> is applicable and \<open>q\<close> is not;
  after the third endorsement of \<open>q\<close>, \<open>r\<close> is not applicable and \<open>q\<close> is. The same
  calls in the reverse order, where every endorsement is parked before its query comes,
  end with \<open>r\<close> not applicable and \<open>q\<close> applicable; so does the order of the
  program's own test. Every call returns once the depth bound is 3 or more.
\<close>

theorem figure1_applicability:
  assumes "q_Uuid q \<noteq> q_Uuid r"
  shows
    "observations (Suc (Suc (Suc n))) now (storeWith 3)
       (figure1 q r @ [OpIsApplicable (q_Uuid r), OpIsApplicable (q_Uuid q), figure1_last q,
          OpIsApplicable (q_Uuid r), OpIsApplicable (q_Uuid q)]) =
     Some [Inserted True, Inserted True, Added False True, Added False True, Added False True,
       Added False True, Added False True, Applicable True, Applicable False,
       Added False True, Applicable False, Applicable True]
     \<and> observations (Suc (Suc (Suc n))) now (storeWith 3)
       (rev (figure1 q r @ [figure1_last q]) @
          [OpIsApplicable (q_Uuid r), OpIsApplicable (q_Uuid q)]) =
     Some [Added True False, Added True False, Added True False, Added True False,
       Added True False, Added True False, Inserted True, Inserted True,
       Applicable False, Applicable True]
     \<and> observations (Suc (Suc (Suc n))) now (storeWith 3)
       [endorse (q_Uuid q) ''1'' [], endorse (q_Uuid r) ''1'' [q_Uuid q], OpAddQuery r,
        endorse (q_Uuid r) ''2'' [q_Uuid q], endorse (q_Uuid r) ''4'' [],
        endorse (q_Uuid q) ''2'' [], OpIsApplicable (q_Uuid r), figure1_last q, OpAddQuery q,
        OpIsApplicable (q_Uuid r), OpIsApplicable (q_Uuid q)] =
     Some [Added True False, Added True False, Inserted True, Added False True,
       Added False True, Added True False, Applicable True, Added True False, Inserted True,
       Applicable False, Applicable True]"
  using assms by (simp add: figure1_def figure1_last_def store_eval)

theorem figure1_applicability_witness:
  "q_Uuid \<lparr>q_Uuid = ''q'', q_Deadline = None\<rparr> \<noteq> q_Uuid \<lparr>q_Uuid = ''r'', q_Deadline = Some 5\<rparr>
   \<and> observations 3 0 (storeWith 3)
       (figure1 \<lparr>q_Uuid = ''q'', q_Deadline = None\<rparr> \<lparr>q_Uuid = ''r'', q_Deadline = Some 5\<rparr> @
        [OpIsApplicable ''r'', OpIsApplicable ''q'',
         figure1_last \<lparr>q_Uuid = ''q'', q_Deadline = None\<rparr>,
         OpIsApplicable ''r'', OpIsApplicable ''q'']) =
     Some [Inserted True, Inserted True, Added False True, Added False True, Added False True,
       Added False True, Added False True, Applicable True, Applicable False,
       Added False True, Applicable False, Applicable True]"
  using figure1_applicability
    [of "\<lparr>q_Uuid = ''q'', q_Deadline = None\<rparr>" "\<lparr>q_Uuid = ''r'', q_Deadline = Some 5\<rparr>" 0 0]
  by (simp add: numeral_3_eq_3)

section \<open>Query store: frames\<close>

subsection \<open>Stores that are the same up to caches and flags\<close>

lemma same_record_refl [simp]: "same_record a a"
  by (simp add: same_record_def)

lemma same_record_trans: "same_record a b \<Longrightarrow> same_record b c \<Longrightarrow> same_record a c"
  by (simp add: same_record_def)

lemma same_record_sym: "same_record a b \<Longrightarrow> same_record b a"
  by (simp add: same_record_def)

lemma same_store_refl [simp]: "same_store qs qs"
  by (simp add: same_store_def option.rel_refl)

lemma rel_option_same_record_trans:
  "rel_option same_record x y \<Longrightarrow> rel_option same_record y z \<Longrightarrow> rel_option same_record x z"
  by (cases x; cases y; cases z) (auto intro: same_record_trans)

lemma same_store_trans:
  "same_store a b \<Longrightarrow> same_store b c \<Longrightarrow> same_store a c"
  unfolding same_store_def by (auto intro: rel_option_same_record_trans)

lemma same_store_set_query:
  "same_store qs qs' \<Longrightarrow> same_record qi qi' \<Longrightarrow>
   same_store (set_query qs k qi) (set_query qs' k qi')"
  by (simp add: same_store_def set_query_def)

lemma same_store_set_query_same:
  "queries qs k = Some qi \<Longrightarrow> same_record qi qi' \<Longrightarrow> same_store qs (set_query qs k qi')"
  by (simp add: same_store_def set_query_def option.rel_refl)

lemma same_store_lookup:
  "same_store qs qs' \<Longrightarrow> queries qs k = Some qi \<Longrightarrow>
   \<exists>qi'. queries qs' k = Some qi' \<and> same_record qi qi'"
  unfolding same_store_def by (metis option_rel_Some1)

lemma same_store_lookup_None:
  "same_store qs qs' \<Longrightarrow> queries qs k = None \<longleftrightarrow> queries qs' k = None"
  unfolding same_store_def by (metis rel_option_None1 rel_option_None2)

lemma keyed_same_record: "same_store qs qs' \<Longrightarrow> keyed qs \<Longrightarrow> keyed qs'"
  unfolding keyed_def same_store_def
  by (metis same_record_def option_rel_Some2)

lemma keyed_set_query:
  "keyed qs \<Longrightarrow> qi_Query qi = Some q \<Longrightarrow> keyed (set_query qs (q_Uuid q) qi)"
  by (simp add: keyed_def set_query_def)

subsection \<open>\<open>isApplicable\<close> changes caches only\<close>

lemma conditionsHold_frame:
  assumes "\<forall>qs c b qs'. rec qs c = Some (b, qs') \<longrightarrow> same_store qs qs'"
    and "conditionsHold rec qs cs = Some (ok, qs')"
  shows "same_store qs qs'"
  using assms(2)
proof (induction cs arbitrary: qs)
  case Nil
  then show ?case by simp
next
  case (Cons c cs)
  from Cons.prems obtain b qs1 where r: "rec qs c = Some (b, qs1)"
    by (auto split: option.splits)
  then have f: "same_store qs qs1" using assms(1) by blast
  show ?case
  proof (cases b)
    case True
    with Cons.prems r f show ?thesis by simp
  next
    case False
    with Cons.prems r have "conditionsHold rec qs1 cs = Some (ok, qs')" by simp
    from f Cons.IH [OF this] show ?thesis by (rule same_store_trans)
  qed
qed

lemma countValid_frame:
  assumes "\<forall>qs c b qs'. rec qs c = Some (b, qs') \<longrightarrow> same_store qs qs'"
    and "countValid rec qs es = Some (es', valid, qs')"
  shows "same_store qs qs' \<and> map ei_Endorsement es' = map ei_Endorsement es"
  using assms(2)
proof (induction es arbitrary: qs es' valid)
  case Nil
  then show ?case by simp
next
  case (Cons e es)
  show ?case
  proof (cases "fresh (ei_cache e)")
    case True
    with Cons.prems obtain es1 v1 where
      r: "countValid rec qs es = Some (es1, v1, qs')" and e: "es' = e # es1"
      by (auto split: option.splits)
    from Cons.IH [OF r] e show ?thesis by simp
  next
    case False
    with Cons.prems obtain ok qs1 es1 v1 where
      c: "conditionsHold rec qs (e_Conditions (ei_Endorsement e)) = Some (ok, qs1)"
      and r: "countValid rec qs1 es = Some (es1, v1, qs')"
      and e: "es' = e\<lparr>ei_cache := cache_Set ok\<rparr> # es1"
      by (auto split: option.splits)
    from conditionsHold_frame [OF assms(1) c] Cons.IH [OF r] e show ?thesis
      by (auto intro: same_store_trans)
  qed
qed

lemma isApplicable_frame:
  "isApplicable n qs uuid = Some (b, qs') \<Longrightarrow> same_store qs qs'"
proof (induction n arbitrary: qs uuid b qs')
  case 0
  then show ?case by simp
next
  case (Suc n)
  show ?case
  proof (cases "queries qs uuid")
    case None
    with Suc.prems show ?thesis by simp
  next
    case (Some q)
    show ?thesis
    proof (cases "State q = qDropped \<or> State q = qCommitted \<or> fresh (qi_cache q)")
      case True
      with Suc.prems Some show ?thesis by (auto split: if_splits)
    next
      case False
      show ?thesis
      proof (cases "int (length (Endorsements q)) < threshold qs")
        case True
        with Suc.prems Some False have "qs' = set_query qs uuid (q\<lparr>qi_cache := cache_Set False\<rparr>)"
          by auto
        then show ?thesis using Some
          by (simp add: same_store_set_query_same same_record_def)
      next
        case long: False
        with Suc.prems Some False obtain es valid qs1 where
          cv: "countValid (isApplicable n) qs (Endorsements q) = Some (es, valid, qs1)"
          and out: "qs' = set_query qs1 uuid
              (q\<lparr>Endorsements := es, qi_cache := cache_Set (int valid \<ge> threshold qs)\<rparr>)"
          by (auto split: option.splits simp: Let_def)
        have "\<forall>qs c b qs'. isApplicable n qs c = Some (b, qs') \<longrightarrow> same_store qs qs'"
          using Suc.IH by blast
        from countValid_frame [OF this cv]
        have fr: "same_store qs qs1"
          and es: "map ei_Endorsement es = map ei_Endorsement (Endorsements q)"
          by simp_all
        from same_store_lookup [OF fr Some] obtain q1 where
          q1: "queries qs1 uuid = Some q1" "same_record q q1" by blast
        have "same_store qs1 qs'" unfolding out
          by (rule same_store_set_query_same [OF q1(1)])
            (use q1(2) es in \<open>simp add: same_record_def\<close>)
        with fr show ?thesis by (rule same_store_trans)
      qed
    qed
  qed
qed


subsection \<open>\<open>cascadeMark\<close> stores the record and changes caches only\<close>

lemma same_store_dom: "same_store qs qs' \<Longrightarrow> dom (queries qs') = dom (queries qs)"
  using same_store_lookup_None by (auto simp: dom_def)

lemma same_record_markEndorsements:
  "same_record qid (qid\<lparr>Endorsements := map (markEndorsement parent) (Endorsements qid)\<rparr>)"
  by (simp add: same_record_def markEndorsement_def comp_def)

lemma cascadeDependents_frame:
  assumes "\<forall>qs qi qs'. keyed qs \<and> rec qs qi = Some qs' \<longrightarrow> same_store (store_put qs qi) qs'"
    and "keyed qs"
    and "cascadeDependents rec parent qs ds = Some qs'"
  shows "same_store qs qs'"
  using assms(2,3)
proof (induction ds arbitrary: qs)
  case Nil
  then show ?case by simp
next
  case (Cons d ds)
  show ?case
  proof (cases "queries qs d")
    case None
    with Cons show ?thesis by simp
  next
    case (Some qid)
    define qid' where "qid' = qid\<lparr>Endorsements := map (markEndorsement parent) (Endorsements qid)\<rparr>"
    define qsd where "qsd = set_query qs d qid'"
    have ce: "same_record qid qid'" unfolding qid'_def by (rule same_record_markEndorsements)
    have f1: "same_store qs qsd" unfolding qsd_def
      by (rule same_store_set_query_same [OF Some ce])
    then have k1: "keyed qsd" using Cons.prems(1) by (rule keyed_same_record)
    from Cons.prems(1) Some obtain q where q: "qi_Query qid = Some q" "q_Uuid q = d"
      by (auto simp: keyed_def)
    then have put: "store_put qsd qid' = qsd"
      using ce by (simp add: store_put_def qsd_def set_query_def same_record_def)
    from Cons.prems(2) Some obtain qs1 where
      r: "rec qsd qid' = Some qs1" and rest: "cascadeDependents rec parent qs1 ds = Some qs'"
      by (auto simp: Let_def qid'_def qsd_def split: option.splits)
    from assms(1) k1 r put have f2: "same_store qsd qs1" by metis
    then have k2: "keyed qs1" using k1 by (rule keyed_same_record)
    from Cons.IH [OF k2 rest] f1 f2 show ?thesis by (blast intro: same_store_trans)
  qed
qed

lemma cascadeMark_frame:
  "keyed qs \<Longrightarrow> cascadeMark n qs qi = Some qs' \<Longrightarrow> same_store (store_put qs qi) qs'"
proof (induction n arbitrary: qs qi qs')
  case 0
  then show ?case by simp
next
  case (Suc n)
  show ?case
  proof (cases "qi_Query qi")
    case None
    with Suc.prems show ?thesis by (simp add: store_put_def)
  next
    case (Some q)
    define qi' where "qi' = qi\<lparr>qi_cache := cache_Mark (qi_cache qi)\<rparr>"
    define qs1 where "qs1 = set_query qs (q_Uuid q) qi'"
    have f1: "same_store (store_put qs qi) qs1"
      unfolding qs1_def store_put_def Some
      by (simp add: same_store_set_query qi'_def same_record_def)
    have k1: "keyed qs1" unfolding qs1_def
      by (rule keyed_set_query [OF Suc.prems(1)]) (simp add: qi'_def Some)
    show ?thesis
    proof (cases "fresh (qi_cache qi)")
      case False
      with Suc.prems(2) Some have "qs' = qs1" by (simp add: qs1_def qi'_def Let_def)
      with f1 show ?thesis by simp
    next
      case True
      with Suc.prems(2) Some have
        loop: "cascadeDependents (cascadeMark n) (q_Uuid q) qs1 (Dependents qi') = Some qs'"
        by (simp add: qs1_def qi'_def Let_def)
      have "\<forall>qs qi qs'. keyed qs \<and> cascadeMark n qs qi = Some qs' \<longrightarrow>
          same_store (store_put qs qi) qs'"
        using Suc.IH by blast
      from cascadeDependents_frame [OF this k1 loop] f1 show ?thesis
        by (blast intro: same_store_trans)
    qed
  qed
qed

subsection \<open>\<open>cascadeMark\<close> returns\<close>

text \<open>
  A call of \<open>cascadeMark\<close> goes on from a record only when the record was fresh, and
  leaves it marked; so the depth of the recursion is bounded by the number of records.
\<close>

lemma finite_fresh_keys: "finite (dom (queries qs)) \<Longrightarrow> finite (fresh_keys qs)"
  by (rule finite_subset [of _ "dom (queries qs)"]) (auto simp: fresh_keys_def)

lemma fresh_keys_set_query:
  "fresh_keys (set_query qs k qi) =
     (if fresh (qi_cache qi) then insert k (fresh_keys qs) else fresh_keys qs - {k})"
  by (auto simp: fresh_keys_def set_query_def)

lemma cascadeMark_returns_aux:
  assumes "keyed qs" and "finite (dom (queries qs))" and "qi_Query qi = Some q"
    and "fresh (qi_cache qi) \<longrightarrow> card (fresh_keys qs - {q_Uuid q}) + 2 \<le> n"
    and "1 \<le> n"
  shows "\<exists>qs'. cascadeMark n qs qi = Some qs' \<and> fresh_keys qs' \<subseteq> fresh_keys qs - {q_Uuid q}"
  using assms
proof (induction n arbitrary: qs qi q)
  case 0
  then show ?case by simp
next
  case (Suc n)
  define qi' where "qi' = qi\<lparr>qi_cache := cache_Mark (qi_cache qi)\<rparr>"
  define qs1 where "qs1 = set_query qs (q_Uuid q) qi'"
  have fk1: "fresh_keys qs1 = fresh_keys qs - {q_Uuid q}"
    by (simp add: qs1_def fresh_keys_set_query qi'_def cache_Mark_def)
  have k1: "keyed qs1" unfolding qs1_def
    by (rule keyed_set_query [OF Suc.prems(1)]) (simp add: qi'_def Suc.prems(3))
  have fin1: "finite (dom (queries qs1))"
    using Suc.prems(2) by (simp add: qs1_def set_query_def)
  show ?case
  proof (cases "fresh (qi_cache qi)")
    case False
    then have "cascadeMark (Suc n) qs qi = Some qs1"
      using Suc.prems(3) by (simp add: qs1_def qi'_def Let_def)
    with fk1 show ?thesis by simp
  next
    case True
    with Suc.prems(4) fk1 have budget: "card (fresh_keys qs1) + 1 \<le> n" by simp
    have loop: "keyed s \<Longrightarrow> finite (dom (queries s)) \<Longrightarrow> card (fresh_keys s) + 1 \<le> n \<Longrightarrow>
        \<exists>s'. cascadeDependents (cascadeMark n) parent s ds = Some s' \<and>
             fresh_keys s' \<subseteq> fresh_keys s" for s ds parent
    proof (induction ds arbitrary: s)
      case Nil
      then show ?case by simp
    next
      case (Cons d ds)
      show ?case
      proof (cases "queries s d")
        case None
        with Cons show ?thesis by simp
      next
        case (Some qid)
        define qid' where
          "qid' = qid\<lparr>Endorsements := map (markEndorsement parent) (Endorsements qid)\<rparr>"
        define sd where "sd = set_query s d qid'"
        from Cons.prems(1) Some obtain qd where qd: "qi_Query qid = Some qd" "q_Uuid qd = d"
          by (auto simp: keyed_def)
        have ce: "same_record qid qid'" unfolding qid'_def by (rule same_record_markEndorsements)
        have f1: "same_store s sd" unfolding sd_def
          by (rule same_store_set_query_same [OF Some ce])
        have ksd: "keyed sd" using f1 Cons.prems(1) by (rule keyed_same_record)
        have finsd: "finite (dom (queries sd))"
          using same_store_dom [OF f1] Cons.prems(2) by simp
        have fksd: "fresh_keys sd = fresh_keys s"
          using Some by (auto simp: sd_def fresh_keys_def set_query_def qid'_def)
        have finfk: "finite (fresh_keys s)" using Cons.prems(2) by (rule finite_fresh_keys)
        have qd': "qi_Query qid' = Some qd" using qd by (simp add: qid'_def)
        have need: "fresh (qi_cache qid') \<longrightarrow> card (fresh_keys sd - {q_Uuid qd}) + 2 \<le> n"
        proof
          assume fr: "fresh (qi_cache qid')"
          then have "d \<in> fresh_keys s"
            using Some by (auto simp: fresh_keys_def qid'_def)
          then have "card (fresh_keys s - {d}) + 1 = card (fresh_keys s)"
            using finfk by (simp add: card_Diff_singleton card_gt_0_iff Suc_leI)
              (metis One_nat_def Suc_pred card_gt_0_iff empty_iff)
          with Cons.prems(3) show "card (fresh_keys sd - {q_Uuid qd}) + 2 \<le> n"
            by (simp add: fksd qd)
        qed
        have "1 \<le> n" using Cons.prems(3) by simp
        from Suc.IH [OF ksd finsd qd' need this] obtain s1 where
          r: "cascadeMark n sd qid' = Some s1" and sub1: "fresh_keys s1 \<subseteq> fresh_keys sd - {q_Uuid qd}"
          by blast
        have put: "store_put sd qid' = sd"
          using qd' qd by (simp add: store_put_def sd_def set_query_def)
        from cascadeMark_frame [OF ksd r] put have f2: "same_store sd s1" by simp
        have k1': "keyed s1" using f2 ksd by (rule keyed_same_record)
        have fin1': "finite (dom (queries s1))"
          using same_store_dom [OF f2] finsd by simp
        from sub1 fksd have sub: "fresh_keys s1 \<subseteq> fresh_keys s" by blast
        then have "card (fresh_keys s1) \<le> card (fresh_keys s)"
          using finfk by (simp add: card_mono)
        with Cons.prems(3) have b1: "card (fresh_keys s1) + 1 \<le> n" by simp
        from Cons.IH [OF k1' fin1' b1] obtain s' where
          "cascadeDependents (cascadeMark n) parent s1 ds = Some s'"
          "fresh_keys s' \<subseteq> fresh_keys s1" by blast
        with r sub Some show ?thesis
          by (auto simp: Let_def qid'_def sd_def)
      qed
    qed
    from loop [OF k1 fin1 budget, of "q_Uuid q" "Dependents qi'"] obtain qs' where
      "cascadeDependents (cascadeMark n) (q_Uuid q) qs1 (Dependents qi') = Some qs'"
      "fresh_keys qs' \<subseteq> fresh_keys qs1" by blast
    with True fk1 Suc.prems(3) show ?thesis
      by (auto simp: Let_def qs1_def qi'_def)
  qed
qed

lemma cascadeMark_returns:
  assumes "keyed qs" and "finite (dom (queries qs))"
    and "card (dom (queries qs)) + 2 \<le> n"
  shows "\<exists>qs'. cascadeMark n qs qi = Some qs'"
proof (cases "qi_Query qi")
  case None
  with assms(3) show ?thesis by (cases n) simp_all
next
  case (Some q)
  have "fresh_keys qs - {q_Uuid q} \<subseteq> dom (queries qs)" by (auto simp: fresh_keys_def)
  then have "card (fresh_keys qs - {q_Uuid q}) \<le> card (dom (queries qs))"
    using assms(2) by (simp add: card_mono)
  with assms(3) have "fresh (qi_cache qi) \<longrightarrow> card (fresh_keys qs - {q_Uuid q}) + 2 \<le> n"
    and "1 \<le> n" by simp_all
  from cascadeMark_returns_aux [OF assms(1,2) Some this] show ?thesis by blast
qed

subsection \<open>More on stores that are the same up to caches and flags\<close>

lemma same_storeI:
  assumes "\<And>k. rel_option same_record (queries a k) (queries b k)"
    and "pendingDependencies b = pendingDependencies a"
    and "pendingEndorsements b = pendingEndorsements a"
    and "threshold b = threshold a"
  shows "same_store a b"
  using assms by (simp add: same_store_def)

lemma same_storeD:
  assumes "same_store a b"
  shows "rel_option same_record (queries a k) (queries b k)"
    and "pendingDependencies b = pendingDependencies a"
    and "pendingEndorsements b = pendingEndorsements a"
    and "threshold b = threshold a"
  using assms by (simp_all add: same_store_def)

lemma rel_option_same_record_sym:
  "rel_option same_record x y \<Longrightarrow> rel_option same_record y x"
  by (cases x; cases y) (simp_all add: same_record_def)

lemma same_store_sym: "same_store a b \<Longrightarrow> same_store b a"
  by (rule same_storeI) (simp_all add: same_storeD rel_option_same_record_sym)

lemma rel_option_same_record_dropped:
  "rel_option same_record x y \<Longrightarrow>
   rel_option same_record
     (map_option (\<lambda>qi. if P then qi\<lparr>State := qDropped\<rparr> else qi) x)
     (map_option (\<lambda>qi. if P then qi\<lparr>State := qDropped\<rparr> else qi) y)"
  by (cases x; cases y) (simp_all add: same_record_def)

lemma same_store_pendingDependencies_at:
  "same_store qs qs' \<Longrightarrow> pendingDependencies_at qs' c = pendingDependencies_at qs c"
  by (simp add: same_store_def pendingDependencies_at_def)

lemma same_store_queries_at:
  assumes "same_store qs qs'"
  shows "same_record (queries_at qs k) (queries_at qs' k)"
  using same_storeD(1) [OF assms, of k] unfolding queries_at_def
  by (cases "queries qs k"; cases "queries qs' k") simp_all

subsection \<open>Dropping\<close>

lemma queries_mark_dropped:
  "queries (mark_dropped D qs) k =
     map_option (\<lambda>qi. if k \<in> D then qi\<lparr>State := qDropped\<rparr> else qi) (queries qs k)"
  by (simp add: mark_dropped_def)

lemma same_store_mark_dropped:
  assumes "same_store a b"
  shows "same_store (mark_dropped D a) (mark_dropped D b)"
proof (rule same_storeI)
  fix k
  show "rel_option same_record (queries (mark_dropped D a) k) (queries (mark_dropped D b) k)"
    unfolding queries_mark_dropped
    by (rule rel_option_same_record_dropped) (rule same_storeD(1) [OF assms])
qed (simp_all add: mark_dropped_def same_storeD [OF assms])

lemma same_store_mark_dropped_twice:
  "same_store (mark_dropped E (mark_dropped D qs)) (mark_dropped (D \<union> E) qs)"
proof (rule same_storeI)
  fix k
  show "rel_option same_record (queries (mark_dropped E (mark_dropped D qs)) k)
      (queries (mark_dropped (D \<union> E) qs) k)"
    unfolding queries_mark_dropped
    by (cases "queries qs k") (simp_all add: same_record_def)
qed (simp_all add: mark_dropped_def)

lemma same_store_mark_dropped_absent:
  assumes "\<And>d. d \<in> D \<Longrightarrow> queries qs d = None"
  shows "same_store (mark_dropped D qs) qs"
proof (rule same_storeI)
  fix k
  show "rel_option same_record (queries (mark_dropped D qs) k) (queries qs k)"
    unfolding queries_mark_dropped using assms [of k]
    by (cases "queries qs k") (auto simp: same_record_def)
qed (simp_all add: mark_dropped_def)

lemma same_store_mark_dropped_empty: "same_store (mark_dropped {} qs) qs"
  by (rule same_store_mark_dropped_absent) simp

lemma same_store_mark_dropped_present:
  assumes "queries qs d = Some qi"
  shows "same_store (mark_dropped {d} qs)
      (set_query qs d (qi\<lparr>State := qDropped, qi_cache := c\<rparr>))"
proof (rule same_storeI)
  fix k
  show "rel_option same_record (queries (mark_dropped {d} qs) k)
      (queries (set_query qs d (qi\<lparr>State := qDropped, qi_cache := c\<rparr>)) k)"
    unfolding queries_mark_dropped using assms
    by (cases "queries qs k") (auto simp: same_record_def set_query_def)
qed (simp_all add: mark_dropped_def set_query_def)

lemma keyed_mark_dropped: "keyed qs \<Longrightarrow> keyed (mark_dropped D qs)"
  by (auto simp: keyed_def queries_mark_dropped)

lemma drop_query_frame:
  assumes "keyed qs" and "drop_query n qs d = Some qs'"
  shows "same_store (mark_dropped {d} qs) qs'"
proof (cases "queries qs d")
  case None
  then have "qi_Query (queries_at qs d) = None"
    by (simp add: queries_at_def queryInfo_zero_def)
  with assms(2) have "qs' = qs"
    by (cases n) (simp_all add: drop_query_def)
  moreover have "same_store (mark_dropped {d} qs) qs"
    by (rule same_store_mark_dropped_absent) (use None in simp)
  ultimately show ?thesis by simp
next
  case (Some qi)
  define qi' where "qi' = qi\<lparr>State := qDropped, qi_cache := cache_Set False\<rparr>"
  from assms(1) Some obtain q where q: "qi_Query qi = Some q" "q_Uuid q = d"
    by (auto simp: keyed_def)
  have at: "queries_at qs d = qi" using Some by (simp add: queries_at_def)
  from assms(2) have run: "cascadeMark n qs qi' = Some qs'"
    by (simp add: drop_query_def at qi'_def)
  have put: "store_put qs qi' = set_query qs d qi'"
    using q by (simp add: store_put_def qi'_def)
  have "same_store (mark_dropped {d} qs) (set_query qs d qi')"
    unfolding qi'_def by (rule same_store_mark_dropped_present [OF Some])
  moreover have "same_store (set_query qs d qi') qs'"
    using cascadeMark_frame [OF assms(1) run] put by simp
  ultimately show ?thesis by (rule same_store_trans)
qed

lemma CheckpointDrop_frame:
  "keyed qs \<Longrightarrow> CheckpointDrop n qs ds = Some qs' \<Longrightarrow> same_store (mark_dropped (set ds) qs) qs'"
proof (induction ds arbitrary: qs)
  case Nil
  then show ?case by (simp add: same_store_mark_dropped_empty)
next
  case (Cons d ds)
  from Cons.prems(2) obtain qs1 where
    d: "drop_query n qs d = Some qs1" and rest: "CheckpointDrop n qs1 ds = Some qs'"
    by (auto split: option.splits)
  from drop_query_frame [OF Cons.prems(1) d] have f1: "same_store (mark_dropped {d} qs) qs1" .
  then have k1: "keyed qs1"
    using keyed_mark_dropped [OF Cons.prems(1)] keyed_same_record by blast
  from Cons.IH [OF k1 rest] have f2: "same_store (mark_dropped (set ds) qs1) qs'" .
  have "same_store (mark_dropped (set ds) (mark_dropped {d} qs)) (mark_dropped (set ds) qs1)"
    using f1 by (rule same_store_mark_dropped)
  moreover have "same_store (mark_dropped (set (d # ds)) qs)
      (mark_dropped (set ds) (mark_dropped {d} qs))"
    using same_store_sym [OF same_store_mark_dropped_twice [of "set ds" "{d}" qs]] by simp
  ultimately show ?case using f2 by (blast intro: same_store_trans)
qed

lemma commit_frame:
  assumes "keyed qs" and "queries qs u = Some qi" and "commit n qs u = Some qs'"
  shows "same_store (committed_store qs u) qs'"
proof -
  have at: "queries_at qs u = qi" using assms(2) by (simp add: queries_at_def)
  from assms(1,2) obtain q where q: "qi_Query qi = Some q" "q_Uuid q = u"
    by (auto simp: keyed_def)
  have "keyed (set_query qs u (qi\<lparr>State := qCommitted\<rparr>))"
    using keyed_set_query [OF assms(1), of "qi\<lparr>State := qCommitted\<rparr>" q] q by simp
  from CheckpointDrop_frame [OF this] assms(3) show ?thesis
    by (simp add: commit_def committed_store_def at Let_def)
qed

lemma same_store_committed_store:
  assumes "same_store a b"
  shows "same_store (committed_store a u) (committed_store b u)"
proof -
  from same_store_queries_at [OF assms, of u]
  have sr: "same_record (queries_at a u) (queries_at b u)" .
  then have d: "Dependents (queries_at b u) = Dependents (queries_at a u)"
    by (simp add: same_record_def)
  have "same_store (set_query a u ((queries_at a u)\<lparr>State := qCommitted\<rparr>))
      (set_query b u ((queries_at b u)\<lparr>State := qCommitted\<rparr>))"
    by (rule same_store_set_query [OF assms]) (use sr in \<open>simp add: same_record_def\<close>)
  then show ?thesis unfolding committed_store_def d by (rule same_store_mark_dropped)
qed

subsection \<open>The invariant reads the graph only\<close>

lemma same_graphD:
  assumes "same_graph a b"
  shows "rel_option same_node (queries a k) (queries b k)"
    and "pendingDependencies b = pendingDependencies a"
    and "pendingEndorsements b = pendingEndorsements a"
  using assms by (simp_all add: same_graph_def)

lemma same_graph_lookup:
  assumes "same_graph a b" and "queries b k = Some qi'"
  shows "\<exists>qi. queries a k = Some qi \<and> same_node qi qi'"
  using same_graphD(1) [OF assms(1), of k] assms(2) by (cases "queries a k") simp_all

lemma same_graph_lookup_None:
  assumes "same_graph a b"
  shows "queries b k = None \<longleftrightarrow> queries a k = None"
  using same_graphD(1) [OF assms, of k] by (cases "queries a k"; cases "queries b k") simp_all

lemma same_graph_dom: "same_graph a b \<Longrightarrow> dom (queries b) = dom (queries a)"
  using same_graph_lookup_None by (auto simp: dom_def)

lemma same_node_conditioned_on:
  assumes "same_node a b"
  shows "conditioned_on b c = conditioned_on a c"
proof -
  from assms have
    "set (map ei_Endorsement (Endorsements b)) = set (map ei_Endorsement (Endorsements a))"
    by (simp add: same_node_def)
  then have "ei_Endorsement ` set (Endorsements b) = ei_Endorsement ` set (Endorsements a)"
    by simp
  then show ?thesis unfolding conditioned_on_def
    by (metis (no_types, lifting) image_iff)
qed

lemma keyed_same_graph:
  assumes "same_graph a b" and "keyed a"
  shows "keyed b"
  unfolding keyed_def
proof (intro allI impI)
  fix k qi'
  assume "queries b k = Some qi'"
  from same_graph_lookup [OF assms(1) this] obtain qi where
    "queries a k = Some qi" "same_node qi qi'" by blast
  with assms(2) show "\<exists>q. qi_Query qi' = Some q \<and> q_Uuid q = k"
    by (auto simp: keyed_def same_node_def)
qed

lemma deps_indexed_same_graph:
  assumes "same_graph a b" and "deps_indexed a"
  shows "deps_indexed b"
  unfolding deps_indexed_def
proof (intro allI impI)
  fix r qi' c
  assume h: "queries b r = Some qi' \<and> conditioned_on qi' c \<and> c \<noteq> r"
  from same_graph_lookup [OF assms(1)] h obtain qi where
    qi: "queries a r = Some qi" "same_node qi qi'" by blast
  then have co: "conditioned_on qi c" using h same_node_conditioned_on by blast
  have pd: "pendingDependencies_at b c = pendingDependencies_at a c"
    by (simp add: pendingDependencies_at_def same_graphD(2) [OF assms(1)])
  show "case queries b c of Some qc \<Rightarrow> r \<in> set (Dependents qc)
        | None \<Rightarrow> r \<in> set (pendingDependencies_at b c)"
  proof (cases "queries b c")
    case None
    then have n: "queries a c = None" using same_graph_lookup_None [OF assms(1)] by simp
    have "r \<in> set (pendingDependencies_at a c)"
      using assms(2) qi(1) co h n unfolding deps_indexed_def by force
    with None pd show ?thesis by simp
  next
    case (Some qc')
    from same_graph_lookup [OF assms(1) Some] obtain qc where
      qc: "queries a c = Some qc" "same_node qc qc'" by blast
    have "r \<in> set (Dependents qc)"
      using assms(2) qi(1) co h qc(1) unfolding deps_indexed_def by force
    with Some qc(2) show ?thesis by (simp add: same_node_def)
  qed
qed

lemma store_inv_same_graph: "same_graph a b \<Longrightarrow> store_inv a \<Longrightarrow> store_inv b"
  unfolding store_inv_def
  using keyed_same_graph deps_indexed_same_graph same_graph_dom by metis

lemma rel_option_same_record_node:
  "rel_option same_record x y \<Longrightarrow> rel_option same_node x y"
  by (cases x; cases y) (simp_all add: same_record_def same_node_def)

lemma same_store_same_graph: "same_store a b \<Longrightarrow> same_graph a b"
  unfolding same_graph_def
  by (simp add: same_storeD rel_option_same_record_node)

lemma store_inv_same_store: "same_store a b \<Longrightarrow> store_inv a \<Longrightarrow> store_inv b"
  using same_store_same_graph store_inv_same_graph by blast

lemma same_graph_mark_dropped: "same_graph qs (mark_dropped D qs)"
  unfolding same_graph_def queries_mark_dropped
proof (intro conjI allI)
  fix k
  show "rel_option same_node (queries qs k)
      (map_option (\<lambda>qi. if k \<in> D then qi\<lparr>State := qDropped\<rparr> else qi) (queries qs k))"
    by (cases "queries qs k") (simp_all add: same_node_def)
qed (simp_all add: mark_dropped_def)

lemma same_graph_set_State:
  assumes "queries qs u = Some qi"
  shows "same_graph qs (set_query qs u (qi\<lparr>State := s\<rparr>))"
  unfolding same_graph_def
proof (intro conjI allI)
  fix k
  show "rel_option same_node (queries qs k) (queries (set_query qs u (qi\<lparr>State := s\<rparr>)) k)"
    using assms by (cases "queries qs k") (auto simp: same_node_def set_query_def)
qed (simp_all add: set_query_def)

lemma store_inv_committed_store:
  assumes "store_inv qs" and "queries qs u = Some qi"
  shows "store_inv (committed_store qs u)"
proof -
  have at: "queries_at qs u = qi" using assms(2) by (simp add: queries_at_def)
  have "store_inv (set_query qs u (qi\<lparr>State := qCommitted\<rparr>))"
    using same_graph_set_State [OF assms(2)] assms(1) by (rule store_inv_same_graph)
  then show ?thesis unfolding committed_store_def at
    using same_graph_mark_dropped store_inv_same_graph by blast
qed

lemma store_inv_mark_dropped: "store_inv qs \<Longrightarrow> store_inv (mark_dropped D qs)"
  using same_graph_mark_dropped store_inv_same_graph by blast

subsection \<open>\<open>CheckState\<close>\<close>

lemma isApplicable_True_present:
  "isApplicable n qs u = Some (True, qs') \<Longrightarrow> queries qs u \<noteq> None"
  by (cases n) (auto split: option.splits)

lemma checkSpeculativeState_frame: "same_store qs (checkSpeculativeState qs u b)"
proof (cases "queries qs u")
  case None
  then show ?thesis by (simp add: checkSpeculativeState_def)
next
  case (Some qi)
  then show ?thesis unfolding checkSpeculativeState_def
    by (auto simp: Let_def same_record_def intro!: same_store_set_query_same)
qed

lemma Endorse_frame: "same_store qs (Endorse qs u)"
proof (cases "queries qs u")
  case None
  then show ?thesis by (simp add: Endorse_def)
next
  case (Some qi)
  then show ?thesis unfolding Endorse_def
    by (auto simp: same_record_def intro!: same_store_set_query_same)
qed

lemma definitelyValid_frame:
  "definitelyValid n now qs cp cs = Some (dv, cp', qs') \<Longrightarrow> same_store qs qs'"
proof (induction cs arbitrary: qs)
  case Nil
  then show ?case by simp
next
  case (Cons c cs)
  show ?case
  proof (cases "queries qs c")
    case None
    with Cons.prems show ?thesis by simp
  next
    case (Some qi)
    show ?thesis
    proof (cases "State qi = qDropped")
      case True
      with Cons Some show ?thesis by simp
    next
      case False
      with Cons.prems Some obtain b where "isApplicable n qs c = Some (b, qs')"
        by (auto split: option.splits simp: Let_def)
      then show ?thesis by (rule isApplicable_frame)
    qed
  qed
qed

lemma countDefinitelyValid_frame:
  "countDefinitelyValid n now qs cp es = Some (k, cp', qs') \<Longrightarrow> same_store qs qs'"
proof (induction es arbitrary: qs cp k cp')
  case Nil
  then show ?case by simp
next
  case (Cons e es)
  from Cons.prems obtain dv cp1 qs1 k1 where
    d: "definitelyValid n now qs cp (e_Conditions (ei_Endorsement e)) = Some (dv, cp1, qs1)"
    and r: "countDefinitelyValid n now qs1 cp1 es = Some (k1, cp', qs')"
    by (auto split: option.splits)
  from definitelyValid_frame [OF d] Cons.IH [OF r] show ?case
    by (rule same_store_trans)
qed

lemma CheckpointChoice_frame:
  "CheckpointChoice n qs uuids = Some (r, qs') \<Longrightarrow> same_store qs qs'"
proof (induction uuids arbitrary: qs)
  case Nil
  then show ?case by simp
next
  case (Cons u us)
  from Cons.prems obtain b qs1 where a: "isApplicable n qs u = Some (b, qs1)"
    by (auto split: option.splits)
  note f = isApplicable_frame [OF a]
  show ?case
  proof (cases b)
    case True
    with Cons.prems a f show ?thesis by simp
  next
    case False
    with Cons.prems a have "CheckpointChoice n qs1 us = Some (r, qs')" by simp
    from f Cons.IH [OF this] show ?thesis by (rule same_store_trans)
  qed
qed

lemma CheckState_frame:
  assumes "keyed qs" and "CheckState n now qs u = Some ((c, cp), qs')"
  shows "(c \<longrightarrow> queries qs u \<noteq> None \<and> same_store (committed_store qs u) qs') \<and>
         (\<not> c \<longrightarrow> same_store qs qs')"
proof -
  from assms(2) obtain applicable qs1 where
    a: "isApplicable n qs u = Some (applicable, qs1)"
    by (auto simp: CheckState_def split: option.splits)
  define qs2 where "qs2 = checkSpeculativeState qs1 u applicable"
  have f2: "same_store qs qs2" unfolding qs2_def
    using isApplicable_frame [OF a] checkSpeculativeState_frame by (rule same_store_trans)
  show ?thesis
  proof (cases "applicable \<and> State (queries_at qs2 u) \<noteq> qCommitted")
    case False
    with assms(2) a have "qs' = qs2" "\<not> c"
      by (auto simp: CheckState_def qs2_def Let_def split: if_splits)
    with f2 show ?thesis by simp
  next
    case True
    with assms(2) a obtain k qs3 where
      cd: "countDefinitelyValid n now qs2 [] (Endorsements (queries_at qs2 u)) = Some (k, cp, qs3)"
      and fin: "if int k \<ge> threshold qs3 then c \<and> commit n qs3 u = Some qs' else \<not> c \<and> qs' = qs3"
      by (auto simp: CheckState_def qs2_def Let_def split: option.splits if_splits)
    from f2 countDefinitelyValid_frame [OF cd] have f3: "same_store qs qs3"
      by (rule same_store_trans)
    show ?thesis
    proof (cases "int k \<ge> threshold qs3")
      case False
      with fin f3 show ?thesis by simp
    next
      case ge: True
      with fin have c: c and cm: "commit n qs3 u = Some qs'" by simp_all
      from True a have "isApplicable n qs u = Some (True, qs1)" by simp
      then have pres: "queries qs u \<noteq> None" by (rule isApplicable_True_present)
      then obtain qi3 where q3: "queries qs3 u = Some qi3"
        using same_store_lookup [OF f3] by fastforce
      have k3: "keyed qs3" using f3 assms(1) by (rule keyed_same_record)
      from commit_frame [OF k3 q3 cm] same_store_committed_store [OF f3, of u]
      have "same_store (committed_store qs u) qs'" by (rule same_store_trans [rotated])
      with c pres show ?thesis by simp
    qed
  qed
qed

section \<open>Query store: adding\<close>

subsection \<open>The first endorsement of each emitter\<close>

lemma emitters_foldl_accept:
  "set (map e_Emitter (foldl accept acc es)) = set (map e_Emitter acc) \<union> set (map e_Emitter es)"
  by (induction es arbitrary: acc) (auto simp: accept_def)

lemma distinct_foldl_accept:
  "distinct (map e_Emitter acc) \<Longrightarrow> distinct (map e_Emitter (foldl accept acc es))"
  by (induction es arbitrary: acc) (auto simp: accept_def)

lemma first_per_emitter_snoc:
  "first_per_emitter (es @ [e]) =
     first_per_emitter es @ (if e_Emitter e \<in> set (map e_Emitter es) then [] else [e])"
proof -
  have old: "filter (\<lambda>i. \<forall>j < i. e_Emitter ((es @ [e]) ! j) \<noteq> e_Emitter ((es @ [e]) ! i))
        [0 ..< length es] =
      filter (\<lambda>i. \<forall>j < i. e_Emitter (es ! j) \<noteq> e_Emitter (es ! i)) [0 ..< length es]"
    by (rule filter_cong) (auto simp: nth_append)
  have map_old: "map (\<lambda>i. (es @ [e]) ! i)
        (filter (\<lambda>i. \<forall>j < i. e_Emitter (es ! j) \<noteq> e_Emitter (es ! i)) [0 ..< length es]) =
      map (\<lambda>i. es ! i)
        (filter (\<lambda>i. \<forall>j < i. e_Emitter (es ! j) \<noteq> e_Emitter (es ! i)) [0 ..< length es])"
    by (rule map_cong) (auto simp: nth_append)
  have last: "(\<forall>j < length es. e_Emitter ((es @ [e]) ! j) \<noteq> e_Emitter e) \<longleftrightarrow>
      e_Emitter e \<notin> set (map e_Emitter es)"
  proof
    assume h: "\<forall>j < length es. e_Emitter ((es @ [e]) ! j) \<noteq> e_Emitter e"
    show "e_Emitter e \<notin> set (map e_Emitter es)"
    proof
      assume "e_Emitter e \<in> set (map e_Emitter es)"
      then obtain x where "x \<in> set es" "e_Emitter x = e_Emitter e" by auto
      then obtain j where "j < length es" "es ! j = x" by (auto simp: in_set_conv_nth)
      with h \<open>e_Emitter x = e_Emitter e\<close> show False by (auto simp: nth_append)
    qed
  next
    assume h: "e_Emitter e \<notin> set (map e_Emitter es)"
    show "\<forall>j < length es. e_Emitter ((es @ [e]) ! j) \<noteq> e_Emitter e"
    proof (intro allI impI)
      fix j assume "j < length es"
      then have "es ! j \<in> set es" by simp
      with h have "e_Emitter (es ! j) \<noteq> e_Emitter e" by (metis imageI set_map)
      with \<open>j < length es\<close> show "e_Emitter ((es @ [e]) ! j) \<noteq> e_Emitter e"
        by (simp add: nth_append)
    qed
  qed
  show ?thesis
    unfolding first_per_emitter_def
    using old map_old last by (simp add: nth_append)
qed

lemma foldl_accept_first_per_emitter: "foldl accept [] es = first_per_emitter es"
proof (induction es rule: rev_induct)
  case Nil
  then show ?case by (simp add: first_per_emitter_def)
next
  case (snoc e es)
  have "e_Emitter e \<in> set (map e_Emitter (first_per_emitter es)) \<longleftrightarrow>
      e_Emitter e \<in> set (map e_Emitter es)"
    using emitters_foldl_accept [of "[]" es] snoc.IH by auto
  with snoc.IH show ?case
    by (simp add: first_per_emitter_snoc accept_def)
qed

subsection \<open>Registering conditions\<close>

lemma grown_record_refl: "grown_record u False a a"
  by (simp add: grown_record_def)

lemma deps_grown_refl: "deps_grown u {} qs qs"
  by (simp add: deps_grown_def option.rel_refl grown_record_refl)

lemma rel_option_grown_trans:
  "rel_option (grown_record u l1) x y \<Longrightarrow> rel_option (grown_record u l2) y z \<Longrightarrow>
   rel_option (grown_record u (l1 \<or> l2)) x z"
  by (cases x; cases y; cases z) (auto simp: grown_record_def)

lemma deps_grownD:
  assumes "deps_grown u C qs qs'"
  shows "rel_option (grown_record u (k \<in> C)) (queries qs k) (queries qs' k)"
    and "set (pendingDependencies_at qs c) \<subseteq> set (pendingDependencies_at qs' c)"
    and "c \<in> C \<Longrightarrow> queries qs c = None \<Longrightarrow> u \<in> set (pendingDependencies_at qs' c)"
    and "pendingEndorsements qs' = pendingEndorsements qs"
    and "threshold qs' = threshold qs"
  using assms by (auto simp: deps_grown_def)

lemma deps_grown_None:
  assumes "deps_grown u C qs qs'"
  shows "queries qs' k = None \<longleftrightarrow> queries qs k = None"
  using deps_grownD(1) [OF assms, of k] by (cases "queries qs k"; cases "queries qs' k") simp_all

lemma deps_grown_dom: "deps_grown u C qs qs' \<Longrightarrow> dom (queries qs') = dom (queries qs)"
  using deps_grown_None by (auto simp: dom_def)

lemma deps_grown_trans:
  assumes "deps_grown u C a b" and "deps_grown u D b c"
  shows "deps_grown u (C \<union> D) a c"
  unfolding deps_grown_def
proof (intro conjI allI ballI impI)
  fix k
  show "rel_option (grown_record u (k \<in> C \<union> D)) (queries a k) (queries c k)"
    using rel_option_grown_trans [OF deps_grownD(1) [OF assms(1)] deps_grownD(1) [OF assms(2)]]
    by simp
next
  fix x
  show "set (pendingDependencies_at a x) \<subseteq> set (pendingDependencies_at c x)"
    using deps_grownD(2) [OF assms(1)] deps_grownD(2) [OF assms(2)] by blast
next
  fix x
  assume x: "x \<in> C \<union> D" and n: "queries a x = None"
  then have nb: "queries b x = None" using deps_grown_None [OF assms(1)] by simp
  show "u \<in> set (pendingDependencies_at c x)"
  proof (cases "x \<in> C")
    case True
    from deps_grownD(3) [OF assms(1) True n] deps_grownD(2) [OF assms(2)] show ?thesis by blast
  next
    case False
    with x have "x \<in> D" by simp
    from deps_grownD(3) [OF assms(2) this nb] show ?thesis .
  qed
qed (simp_all add: deps_grownD(4,5) [OF assms(1)] deps_grownD(4,5) [OF assms(2)])

lemma rel_option_grown_weaken:
  "rel_option (grown_record u l) x y \<Longrightarrow> (l' \<longrightarrow> l) \<Longrightarrow> rel_option (grown_record u l') x y"
  by (cases x; cases y) (auto simp: grown_record_def)

lemma deps_grown_subset:
  assumes "deps_grown u C a b" and "D \<subseteq> C"
  shows "deps_grown u D a b"
  unfolding deps_grown_def
proof (intro conjI allI ballI impI)
  fix k
  show "rel_option (grown_record u (k \<in> D)) (queries a k) (queries b k)"
    by (rule rel_option_grown_weaken [OF deps_grownD(1) [OF assms(1)]]) (use assms(2) in auto)
next
  fix x
  assume "x \<in> D" "queries a x = None"
  with assms(2) deps_grownD(3) [OF assms(1)] show "u \<in> set (pendingDependencies_at b x)"
    by blast
qed (simp_all add: deps_grownD [OF assms(1)])

lemma deps_grown_known:
  assumes "queries qs c = Some qic"
  shows "deps_grown u {c}
      qs (set_query qs c (qic\<lparr>Dependents := addToSet (Dependents qic) u\<rparr>))"
  unfolding deps_grown_def
proof (intro conjI allI ballI impI)
  fix k
  show "rel_option (grown_record u (k \<in> {c})) (queries qs k)
      (queries (set_query qs c (qic\<lparr>Dependents := addToSet (Dependents qic) u\<rparr>)) k)"
    using assms
    by (cases "queries qs k") (auto simp: set_query_def grown_record_def addToSet_def)
next
  fix x assume "x \<in> {c}" "queries qs x = None"
  with assms show "u \<in> set (pendingDependencies_at
      (set_query qs c (qic\<lparr>Dependents := addToSet (Dependents qic) u\<rparr>)) x)" by simp
qed (simp_all add: set_query_def pendingDependencies_at_def)

lemma deps_grown_unknown:
  assumes "queries qs c = None"
  shows "deps_grown u {c} qs
      (qs\<lparr>pendingDependencies := (pendingDependencies qs)
            (c \<mapsto> addToSet (pendingDependencies_at qs c) u)\<rparr>)"
  unfolding deps_grown_def
proof (intro conjI allI ballI impI)
  fix k
  show "rel_option (grown_record u (k \<in> {c})) (queries qs k)
      (queries (qs\<lparr>pendingDependencies := (pendingDependencies qs)
            (c \<mapsto> addToSet (pendingDependencies_at qs c) u)\<rparr>) k)"
    using assms by (cases "queries qs k") (auto simp: grown_record_def)
qed (auto simp: pendingDependencies_at_def addToSet_def)

lemma registerConditions_grows:
  assumes "qi_Query qi = Some q"
  shows "\<exists>qs'. registerConditions qs qi cs = Some qs' \<and> deps_grown (q_Uuid q) (set cs) qs qs'"
proof (induction cs arbitrary: qs)
  case Nil
  then show ?case by (simp add: deps_grown_refl)
next
  case (Cons c cs)
  show ?case
  proof (cases "queries qs c")
    case None
    define qs1 where "qs1 = qs\<lparr>pendingDependencies := (pendingDependencies qs)
            (c \<mapsto> addToSet (pendingDependencies_at qs c) (q_Uuid q))\<rparr>"
    from Cons.IH [of qs1] obtain qs' where
      r: "registerConditions qs1 qi cs = Some qs'" and g: "deps_grown (q_Uuid q) (set cs) qs1 qs'"
      by blast
    have "deps_grown (q_Uuid q) ({c} \<union> set cs) qs qs'"
      using deps_grown_unknown [OF None, of "q_Uuid q"] g unfolding qs1_def
      by (rule deps_grown_trans)
    with r None assms show ?thesis by (simp add: qs1_def)
  next
    case (Some qic)
    define qs1 where
      "qs1 = set_query qs c (qic\<lparr>Dependents := addToSet (Dependents qic) (q_Uuid q)\<rparr>)"
    from Cons.IH [of qs1] obtain qs' where
      r: "registerConditions qs1 qi cs = Some qs'" and g: "deps_grown (q_Uuid q) (set cs) qs1 qs'"
      by blast
    have "deps_grown (q_Uuid q) ({c} \<union> set cs) qs qs'"
      using deps_grown_known [OF Some, of "q_Uuid q"] g unfolding qs1_def
      by (rule deps_grown_trans)
    with r Some assms show ?thesis by (simp add: qs1_def)
  qed
qed

subsection \<open>\<open>addEndorsementInternal\<close> and the parked endorsements\<close>

lemma addEndorsementInternal_result:
  assumes "qi_Query qi = Some q"
  shows "\<exists>ins es qs'. addEndorsementInternal qs e qi = Some (ins, qi\<lparr>Endorsements := es\<rparr>, qs') \<and>
      map ei_Endorsement es = accept (map ei_Endorsement (Endorsements qi)) e \<and>
      deps_grown (q_Uuid q) (conds_of (qi\<lparr>Endorsements := es\<rparr>) - conds_of qi) qs qs' \<and>
      (ins \<longleftrightarrow> e_Emitter e \<notin> set (map (e_Emitter \<circ> ei_Endorsement) (Endorsements qi)))"
proof (cases "e_Emitter e \<in> set (map (e_Emitter \<circ> ei_Endorsement) (Endorsements qi))")
  case True
  have a: "addEndorsementInternal qs e qi = Some (False, qi\<lparr>Endorsements := Endorsements qi\<rparr>, qs)"
    using True by (simp add: addEndorsementInternal_def)
  have m: "map ei_Endorsement (Endorsements qi) = accept (map ei_Endorsement (Endorsements qi)) e"
    using True by (simp add: accept_def comp_def)
  have g: "deps_grown (q_Uuid q) (conds_of (qi\<lparr>Endorsements := Endorsements qi\<rparr>) - conds_of qi) qs qs"
    by (simp add: deps_grown_refl)
  show ?thesis
    by (rule exI [of _ False], rule exI [of _ "Endorsements qi"], rule exI [of _ qs])
      (use a m g True in blast)
next
  case False
  from registerConditions_grows [OF assms, of qs "e_Conditions e"] obtain qs' where
    r: "registerConditions qs qi (e_Conditions e) = Some qs'"
    and g: "deps_grown (q_Uuid q) (set (e_Conditions e)) qs qs'" by blast
  define es where "es = Endorsements qi @ [\<lparr>ei_Endorsement = e, ei_cache = cache_zero\<rparr>]"
  have a: "addEndorsementInternal qs e qi = Some (True, qi\<lparr>Endorsements := es\<rparr>, qs')"
    using False r by (simp add: addEndorsementInternal_def es_def)
  have m: "map ei_Endorsement es = accept (map ei_Endorsement (Endorsements qi)) e"
    using False by (simp add: accept_def es_def comp_def)
  have "conds_of (qi\<lparr>Endorsements := es\<rparr>) - conds_of qi \<subseteq> set (e_Conditions e)"
    by (auto simp: conds_of_def es_def)
  from deps_grown_subset [OF g this]
  have g': "deps_grown (q_Uuid q) (conds_of (qi\<lparr>Endorsements := es\<rparr>) - conds_of qi) qs qs'" .
  show ?thesis
    by (rule exI [of _ True], rule exI [of _ es], rule exI [of _ qs'])
      (use a m g' False in blast)
qed

lemma injectPending_result:
  assumes "qi_Query qi = Some q"
  shows "\<exists>es qs'. injectPending (q_Uuid q) pes kept qi qs =
        Some (kept @ filter (\<lambda>e. e_Uuid e \<noteq> q_Uuid q) pes, qi\<lparr>Endorsements := es\<rparr>, qs') \<and>
      map ei_Endorsement es =
        foldl accept (map ei_Endorsement (Endorsements qi)) (filter (\<lambda>e. e_Uuid e = q_Uuid q) pes) \<and>
      deps_grown (q_Uuid q) (conds_of (qi\<lparr>Endorsements := es\<rparr>) - conds_of qi) qs qs'"
  using assms
proof (induction pes arbitrary: kept qi qs)
  case Nil
  have "injectPending (q_Uuid q) [] kept qi qs =
      Some (kept @ filter (\<lambda>e. e_Uuid e \<noteq> q_Uuid q) [], qi\<lparr>Endorsements := Endorsements qi\<rparr>, qs)"
    by simp
  moreover have "deps_grown (q_Uuid q)
      (conds_of (qi\<lparr>Endorsements := Endorsements qi\<rparr>) - conds_of qi) qs qs"
    by (simp add: deps_grown_refl)
  ultimately show ?case by (intro exI [of _ "Endorsements qi"] exI [of _ qs]) simp
next
  case (Cons pe pes)
  show ?case
  proof (cases "e_Uuid pe = q_Uuid q")
    case False
    from Cons.IH [OF Cons.prems, of "kept @ [pe]" qs] False show ?thesis by simp
  next
    case True
    from addEndorsementInternal_result [OF Cons.prems, of qs pe] obtain ins es1 qs1 where
      a: "addEndorsementInternal qs pe qi = Some (ins, qi\<lparr>Endorsements := es1\<rparr>, qs1)"
      and m1: "map ei_Endorsement es1 = accept (map ei_Endorsement (Endorsements qi)) pe"
      and g1: "deps_grown (q_Uuid q) (conds_of (qi\<lparr>Endorsements := es1\<rparr>) - conds_of qi) qs qs1"
      by blast
    define qi1 where "qi1 = qi\<lparr>Endorsements := es1\<rparr>"
    have q1: "qi_Query qi1 = Some q" using Cons.prems by (simp add: qi1_def)
    from Cons.IH [OF q1, of kept qs1] obtain es qs' where
      i: "injectPending (q_Uuid q) pes kept qi1 qs1 =
        Some (kept @ filter (\<lambda>e. e_Uuid e \<noteq> q_Uuid q) pes, qi1\<lparr>Endorsements := es\<rparr>, qs')"
      and m: "map ei_Endorsement es =
        foldl accept (map ei_Endorsement (Endorsements qi1)) (filter (\<lambda>e. e_Uuid e = q_Uuid q) pes)"
      and g: "deps_grown (q_Uuid q) (conds_of (qi1\<lparr>Endorsements := es\<rparr>) - conds_of qi1) qs1 qs'"
      by blast
    have g1': "deps_grown (q_Uuid q) (conds_of qi1 - conds_of qi) qs qs1"
      using g1 by (simp add: qi1_def)
    have g': "deps_grown (q_Uuid q) (conds_of (qi\<lparr>Endorsements := es\<rparr>) - conds_of qi1) qs1 qs'"
      using g by (simp add: qi1_def)
    have "deps_grown (q_Uuid q)
        ((conds_of qi1 - conds_of qi) \<union> (conds_of (qi\<lparr>Endorsements := es\<rparr>) - conds_of qi1)) qs qs'"
      using g1' g' by (rule deps_grown_trans)
    then have gg: "deps_grown (q_Uuid q) (conds_of (qi\<lparr>Endorsements := es\<rparr>) - conds_of qi) qs qs'"
      by (rule deps_grown_subset) auto
    have run: "injectPending (q_Uuid q) (pe # pes) kept qi qs =
        Some (kept @ filter (\<lambda>e. e_Uuid e \<noteq> q_Uuid q) (pe # pes), qi\<lparr>Endorsements := es\<rparr>, qs')"
      using True a i by (simp add: qi1_def)
    have mm: "map ei_Endorsement es =
        foldl accept (map ei_Endorsement (Endorsements qi))
          (filter (\<lambda>e. e_Uuid e = q_Uuid q) (pe # pes))"
      using True m m1 by (simp add: qi1_def)
    from run mm gg show ?thesis by blast
  qed
qed

section \<open>Query store: the invariant of a run\<close>

lemma conditioned_on_conds_of: "conditioned_on qi c \<longleftrightarrow> c \<in> conds_of qi"
  by (auto simp: conditioned_on_def conds_of_def)

lemma deps_grown_lookup:
  assumes "deps_grown u C qs qs'" and "queries qs k = Some a"
  shows "\<exists>b. queries qs' k = Some b \<and> grown_record u (k \<in> C) a b"
  using deps_grownD(1) [OF assms(1), of k] assms(2) by (cases "queries qs' k") simp_all

lemma deps_grown_lookup_rev:
  assumes "deps_grown u C qs qs'" and "queries qs' k = Some b"
  shows "\<exists>a. queries qs k = Some a \<and> grown_record u (k \<in> C) a b"
  using deps_grownD(1) [OF assms(1), of k] assms(2) by (cases "queries qs k") simp_all

lemma keyed_deps_grown:
  assumes "deps_grown u C qs qs'" and "keyed qs"
  shows "keyed qs'"
  unfolding keyed_def
proof (intro allI impI)
  fix k b
  assume "queries qs' k = Some b"
  from deps_grown_lookup_rev [OF assms(1) this] obtain a where
    "queries qs k = Some a" "grown_record u (k \<in> C) a b" by blast
  with assms(2) show "\<exists>q. qi_Query b = Some q \<and> q_Uuid q = k"
    by (auto simp: keyed_def grown_record_def)
qed

lemma tracks_same_graph:
  assumes "same_graph a b" and "tracks hist a"
  shows "tracks hist b"
  unfolding tracks_def
proof (intro conjI allI impI)
  fix u qi'
  assume "queries b u = Some qi'"
  from same_graph_lookup [OF assms(1) this] obtain qi where
    "queries a u = Some qi" "same_node qi qi'" by blast
  with assms(2) show "map ei_Endorsement (Endorsements qi') =
      foldl accept [] (filter (\<lambda>e. e_Uuid e = u) hist)"
    by (simp add: tracks_def same_node_def)
next
  have "\<And>k. queries b k = None \<longleftrightarrow> queries a k = None"
    using same_graph_lookup_None [OF assms(1)] by simp
  then show "pendingEndorsements b = filter (\<lambda>e. queries b (e_Uuid e) = None) hist"
    using assms(2) same_graphD(3) [OF assms(1)] by (simp add: tracks_def)
qed

lemma tracks_same_store: "same_store a b \<Longrightarrow> tracks hist a \<Longrightarrow> tracks hist b"
  using same_store_same_graph tracks_same_graph by blast

text \<open>
  The store that \<open>AddEndorsement\<close> leaves, up to the caches that \<open>cascadeMark\<close>
  marks: the conditions are registered, then the caller's copy of the record, with the
  endorsement accepted, is stored.
\<close>

lemma stored_copy_inv:
  assumes inv: "store_inv qs" and tr: "tracks hist qs"
    and qi: "queries qs r = Some qi"
    and g: "deps_grown r (conds_of qi' - conds_of qi) qs qs1"
    and qi': "qi' = qi\<lparr>Endorsements := es\<rparr>"
    and es: "map ei_Endorsement es = accept (map ei_Endorsement (Endorsements qi)) e"
    and e: "e_Uuid e = r"
  shows "store_inv (set_query qs1 r qi') \<and> tracks (hist @ [e]) (set_query qs1 r qi') \<and>
    dom (queries (set_query qs1 r qi')) = dom (queries qs)"
proof -
  let ?mid = "set_query qs1 r qi'"
  from inv have k: "keyed qs" and fin: "finite (dom (queries qs))" and di: "deps_indexed qs"
    by (simp_all add: store_inv_def)
  from k qi obtain q where q: "qi_Query qi = Some q" "q_Uuid q = r" by (auto simp: keyed_def)
  have k1: "keyed qs1" using g k by (rule keyed_deps_grown)
  have kmid: "keyed ?mid"
    using keyed_set_query [OF k1, of qi' q] q by (simp add: qi')
  have dom1: "dom (queries qs1) = dom (queries qs)" using g by (rule deps_grown_dom)
  have dommid: "dom (queries ?mid) = dom (queries qs)"
    using dom1 qi by (auto simp: set_query_def)
  have finmid: "finite (dom (queries ?mid))" using dommid fin by simp
  have pd: "pendingDependencies_at ?mid c = pendingDependencies_at qs1 c" for c
    by (simp add: pendingDependencies_at_def set_query_def)
  have di_mid: "deps_indexed ?mid"
    unfolding deps_indexed_def
  proof (intro allI impI)
    fix r0 qi0 c
    assume h: "queries ?mid r0 = Some qi0 \<and> conditioned_on qi0 c \<and> c \<noteq> r0"
    then have c_in: "c \<in> conds_of qi0" by (simp add: conditioned_on_conds_of)
    text \<open>what the index of the old store gives for a condition of an old record\<close>
    have old: "case queries ?mid c of Some qc \<Rightarrow> r0 \<in> set (Dependents qc)
          | None \<Rightarrow> r0 \<in> set (pendingDependencies_at ?mid c)"
      if a0: "queries qs r0 = Some a0" and ca: "c \<in> conds_of a0" for a0
    proof (cases "queries qs c")
      case None
      then have "r0 \<in> set (pendingDependencies_at qs c)"
        using di a0 ca h unfolding deps_indexed_def conditioned_on_conds_of by force
      then have "r0 \<in> set (pendingDependencies_at qs1 c)"
        using deps_grownD(2) [OF g] by blast
      moreover have "queries ?mid c = None"
        using None dommid by (metis domIff)
      ultimately show ?thesis by (simp add: pd)
    next
      case (Some a)
      then have in_a: "r0 \<in> set (Dependents a)"
        using di a0 ca h unfolding deps_indexed_def conditioned_on_conds_of by force
      show ?thesis
      proof (cases "c = r")
        case True
        with Some qi have "a = qi" by simp
        with in_a True show ?thesis by (simp add: set_query_def qi')
      next
        case False
        from deps_grown_lookup [OF g Some] obtain b where
          "queries qs1 c = Some b" "grown_record r (c \<in> conds_of qi' - conds_of qi) a b" by blast
        with in_a False show ?thesis by (auto simp: set_query_def grown_record_def)
      qed
    qed
    show "case queries ?mid c of Some qc \<Rightarrow> r0 \<in> set (Dependents qc)
          | None \<Rightarrow> r0 \<in> set (pendingDependencies_at ?mid c)"
    proof (cases "r0 = r")
      case False
      with h have "queries qs1 r0 = Some qi0" by (simp add: set_query_def)
      from deps_grown_lookup_rev [OF g this] obtain a0 where
        a0: "queries qs r0 = Some a0" and gr: "grown_record r (r0 \<in> conds_of qi' - conds_of qi) a0 qi0"
        by blast
      then have "conds_of a0 = conds_of qi0" by (simp add: conds_of_def grown_record_def)
      with old [OF a0] c_in show ?thesis by simp
    next
      case True
      with h have q0: "qi0 = qi'" by (simp add: set_query_def)
      show ?thesis
      proof (cases "c \<in> conds_of qi")
        case True
        from old [of qi] qi \<open>r0 = r\<close> True show ?thesis by simp
      next
        case False
        with c_in q0 have new: "c \<in> conds_of qi' - conds_of qi" by simp
        from h True have cr: "c \<noteq> r" by simp
        show ?thesis
        proof (cases "queries qs c")
          case None
          from deps_grownD(3) [OF g new None] have "r \<in> set (pendingDependencies_at qs1 c)" .
          moreover have "queries ?mid c = None" using None dommid by (metis domIff)
          ultimately show ?thesis using True by (simp add: pd)
        next
          case (Some a)
          from deps_grown_lookup [OF g Some] new obtain b where
            "queries qs1 c = Some b" "r \<in> set (Dependents b)"
            by (auto simp: grown_record_def)
          with cr True show ?thesis by (simp add: set_query_def)
        qed
      qed
    qed
  qed
  have tr_mid: "tracks (hist @ [e]) ?mid"
    unfolding tracks_def
  proof (intro conjI allI impI)
    fix u b
    assume b: "queries ?mid u = Some b"
    show "map ei_Endorsement (Endorsements b) =
        foldl accept [] (filter (\<lambda>e. e_Uuid e = u) (hist @ [e]))"
    proof (cases "u = r")
      case True
      with b have "b = qi'" by (simp add: set_query_def)
      moreover have "map ei_Endorsement (Endorsements qi) =
          foldl accept [] (filter (\<lambda>e. e_Uuid e = r) hist)"
        using tr qi by (simp add: tracks_def)
      ultimately show ?thesis using True es e by (simp add: qi')
    next
      case False
      with b have "queries qs1 u = Some b" by (simp add: set_query_def)
      from deps_grown_lookup_rev [OF g this] obtain a where
        "queries qs u = Some a" "Endorsements b = Endorsements a"
        by (auto simp: grown_record_def)
      with tr False e show ?thesis by (simp add: tracks_def)
    qed
  next
    have none: "queries ?mid k = None \<longleftrightarrow> queries qs k = None" for k
      using dommid by (metis domIff)
    have "pendingEndorsements ?mid = pendingEndorsements qs"
      using deps_grownD(4) [OF g] by (simp add: set_query_def)
    then show "pendingEndorsements ?mid =
        filter (\<lambda>e. queries ?mid (e_Uuid e) = None) (hist @ [e])"
      using tr qi e by (simp add: tracks_def none)
  qed
  from kmid finmid di_mid tr_mid dommid show ?thesis by (simp add: store_inv_def)
qed

lemma pendingDependencies_at_pendingEndorsements:
  "pendingDependencies_at (qs\<lparr>pendingEndorsements := p\<rparr>) = pendingDependencies_at qs"
  by (rule ext) (simp add: pendingDependencies_at_def)

lemma store_inv_pendingEndorsements:
  "store_inv (qs\<lparr>pendingEndorsements := p\<rparr>) = store_inv qs"
  by (simp add: store_inv_def keyed_def deps_indexed_def
      pendingDependencies_at_pendingEndorsements cong: option.case_cong)

lemma AddEndorsement_inv:
  assumes "store_inv qs" and "tracks hist qs" and "AddEndorsement n qs e = Some (r, qs')"
  shows "store_inv qs' \<and> tracks (hist @ [e]) qs' \<and> dom (queries qs') = dom (queries qs)"
proof (cases "queries qs (e_Uuid e)")
  case None
  with assms(3) have qs': "qs' = qs\<lparr>pendingEndorsements := pendingEndorsements qs @ [e]\<rparr>"
    by (simp add: AddEndorsement_def)
  have "tracks (hist @ [e]) qs'"
    using assms(2) None unfolding tracks_def qs' by simp
  moreover have "dom (queries qs') = dom (queries qs)" by (simp add: qs')
  ultimately show ?thesis using assms(1) by (simp add: qs' store_inv_pendingEndorsements)
next
  case (Some qi)
  from assms(1) have k: "keyed qs" by (simp add: store_inv_def)
  with Some obtain q where q: "qi_Query qi = Some q" "q_Uuid q = e_Uuid e"
    by (auto simp: keyed_def)
  from addEndorsementInternal_result [OF q(1), of qs e] obtain ins es qs1 where
    a: "addEndorsementInternal qs e qi = Some (ins, qi\<lparr>Endorsements := es\<rparr>, qs1)"
    and m: "map ei_Endorsement es = accept (map ei_Endorsement (Endorsements qi)) e"
    and g: "deps_grown (q_Uuid q) (conds_of (qi\<lparr>Endorsements := es\<rparr>) - conds_of qi) qs qs1"
    by blast
  define qi' where "qi' = qi\<lparr>Endorsements := es\<rparr>"
  from assms(3) Some a have cm: "cascadeMark n qs1 qi' = Some qs'"
    by (auto simp: AddEndorsement_def qi'_def split: option.splits)
  have k1: "keyed qs1" using g k by (rule keyed_deps_grown)
  have put: "store_put qs1 qi' = set_query qs1 (e_Uuid e) qi'"
    using q by (simp add: store_put_def qi'_def)
  from cascadeMark_frame [OF k1 cm] put
  have f: "same_store (set_query qs1 (e_Uuid e) qi') qs'" by simp
  have "store_inv (set_query qs1 (e_Uuid e) qi') \<and>
      tracks (hist @ [e]) (set_query qs1 (e_Uuid e) qi') \<and>
      dom (queries (set_query qs1 (e_Uuid e) qi')) = dom (queries qs)"
    by (rule stored_copy_inv [OF assms(1,2) Some _ qi'_def m])
      (use g q in \<open>simp_all add: qi'_def\<close>)
  with f show ?thesis
    using store_inv_same_store tracks_same_store same_store_dom by metis
qed


text \<open>
  The store that \<open>AddQuery\<close> leaves, up to the caches that \<open>cascadeMark\<close> marks and
  to the list of parked endorsements, which is assigned last.
\<close>

lemma new_record_inv:
  assumes inv: "store_inv qs" and tr: "tracks hist qs"
    and absent: "queries qs u = None"
    and g: "deps_grown u (conds_of qi1) qs qs1"
    and es: "map ei_Endorsement (Endorsements qi1) =
        foldl accept [] (filter (\<lambda>e. e_Uuid e = u) (pendingEndorsements qs))"
    and q: "qi_Query qi1 = Some q" "q_Uuid q = u"
    and qi'': "qi'' = qi1\<lparr>Dependents := pendingDependencies_at qs1 u, qi_cache := c\<rparr>"
    and mid: "mid = set_query (qs1\<lparr>pendingDependencies := (pendingDependencies qs1)(u := None)\<rparr>) u qi''"
  shows "store_inv mid \<and>
    tracks hist (mid\<lparr>pendingEndorsements := filter (\<lambda>e. e_Uuid e \<noteq> u) (pendingEndorsements qs)\<rparr>) \<and>
    dom (queries mid) = insert u (dom (queries qs)) \<and> queries mid u = Some qi''"
proof -
  from inv have k: "keyed qs" and fin: "finite (dom (queries qs))" and di: "deps_indexed qs"
    by (simp_all add: store_inv_def)
  have k1: "keyed qs1" using g k by (rule keyed_deps_grown)
  have dom1: "dom (queries qs1) = dom (queries qs)" using g by (rule deps_grown_dom)
  have absent1: "queries qs1 u = None" using absent deps_grown_None [OF g] by simp
  have qmid: "queries mid k = (if k = u then Some qi'' else queries qs1 k)" for k
    by (simp add: mid set_query_def)
  have pdmid: "pendingDependencies_at mid x =
      (if x = u then [] else pendingDependencies_at qs1 x)" for x
    by (simp add: mid set_query_def pendingDependencies_at_def)
  have kmid: "keyed mid"
    unfolding keyed_def using k1 q by (auto simp: qmid keyed_def qi'')
  have "dom (queries mid) = insert u (dom (queries qs1))"
    by (auto simp: qmid split: if_splits)
  then have dommid: "dom (queries mid) = insert u (dom (queries qs))"
    using dom1 by simp
  with fin have finmid: "finite (dom (queries mid))" by simp
  have di_mid: "deps_indexed mid"
    unfolding deps_indexed_def
  proof (intro allI impI)
    fix r0 b0 x
    assume h: "queries mid r0 = Some b0 \<and> conditioned_on b0 x \<and> x \<noteq> r0"
    then have x_in: "x \<in> conds_of b0" by (simp add: conditioned_on_conds_of)
    show "case queries mid x of Some qc \<Rightarrow> r0 \<in> set (Dependents qc)
          | None \<Rightarrow> r0 \<in> set (pendingDependencies_at mid x)"
    proof (cases "r0 = u")
      case True
      with h have "b0 = qi''" by (simp add: qmid)
      with x_in have xin1: "x \<in> conds_of qi1" by (simp add: conds_of_def qi'')
      from h True have xu: "x \<noteq> u" by simp
      show ?thesis
      proof (cases "queries qs x")
        case None
        from deps_grownD(3) [OF g xin1 None] have "u \<in> set (pendingDependencies_at qs1 x)" .
        moreover have "queries qs1 x = None" using None deps_grown_None [OF g] by simp
        ultimately show ?thesis using xu True by (simp add: qmid pdmid)
      next
        case (Some a)
        from deps_grown_lookup [OF g Some] xin1 obtain b where
          "queries qs1 x = Some b" "u \<in> set (Dependents b)"
          by (auto simp: grown_record_def)
        with xu True show ?thesis by (simp add: qmid)
      qed
    next
      case False
      with h have "queries qs1 r0 = Some b0" by (simp add: qmid)
      from deps_grown_lookup_rev [OF g this] obtain a0 where
        a0: "queries qs r0 = Some a0" and gr: "grown_record u (r0 \<in> conds_of qi1) a0 b0"
        by blast
      then have "conds_of a0 = conds_of b0" by (simp add: conds_of_def grown_record_def)
      with x_in have xa: "x \<in> conds_of a0" by simp
      show ?thesis
      proof (cases "queries qs x")
        case None
        then have "r0 \<in> set (pendingDependencies_at qs x)"
          using di a0 xa h unfolding deps_indexed_def conditioned_on_conds_of by force
        then have in1: "r0 \<in> set (pendingDependencies_at qs1 x)"
          using deps_grownD(2) [OF g] by blast
        have n1: "queries qs1 x = None" using None deps_grown_None [OF g] by simp
        show ?thesis
        proof (cases "x = u")
          case True
          with in1 show ?thesis by (simp add: qmid qi'')
        next
          case False
          with in1 n1 show ?thesis by (simp add: qmid pdmid)
        qed
      next
        case (Some a)
        then have in_a: "r0 \<in> set (Dependents a)"
          using di a0 xa h unfolding deps_indexed_def conditioned_on_conds_of by force
        from Some absent have xu: "x \<noteq> u" by auto
        from deps_grown_lookup [OF g Some] obtain b where
          "queries qs1 x = Some b" "grown_record u (x \<in> conds_of qi1) a b" by blast
        with in_a xu show ?thesis by (auto simp: qmid grown_record_def)
      qed
    qed
  qed
  let ?fin = "mid\<lparr>pendingEndorsements := filter (\<lambda>e. e_Uuid e \<noteq> u) (pendingEndorsements qs)\<rparr>"
  have pe: "pendingEndorsements qs = filter (\<lambda>e. queries qs (e_Uuid e) = None) hist"
    using tr by (simp add: tracks_def)
  have tr_fin: "tracks hist ?fin"
    unfolding tracks_def
  proof (intro conjI allI impI)
    fix k b
    assume b: "queries ?fin k = Some b"
    show "map ei_Endorsement (Endorsements b) = foldl accept [] (filter (\<lambda>e. e_Uuid e = k) hist)"
    proof (cases "k = u")
      case True
      with b have "b = qi''" by (simp add: qmid)
      moreover have "filter (\<lambda>e. e_Uuid e = u) (pendingEndorsements qs) =
          filter (\<lambda>e. e_Uuid e = u) hist"
        unfolding pe using absent by (induction hist) auto
      ultimately show ?thesis using True es by (simp add: qi'')
    next
      case False
      with b have "queries qs1 k = Some b" by (simp add: qmid)
      from deps_grown_lookup_rev [OF g this] obtain a where
        "queries qs k = Some a" "Endorsements b = Endorsements a"
        by (auto simp: grown_record_def)
      with tr show ?thesis by (simp add: tracks_def)
    qed
  next
    have none: "queries mid k = None \<longleftrightarrow> queries qs k = None \<and> k \<noteq> u" for k
      using deps_grown_None [OF g, of k] by (simp add: qmid)
    have "pendingEndorsements ?fin =
        filter (\<lambda>e. e_Uuid e \<noteq> u) (filter (\<lambda>e. queries qs (e_Uuid e) = None) hist)"
      using pe by simp
    also have "\<dots> = filter (\<lambda>e. queries mid (e_Uuid e) = None) hist"
      by (simp add: none)
    finally show "pendingEndorsements ?fin = filter (\<lambda>e. queries ?fin (e_Uuid e) = None) hist"
      by simp
  qed
  from kmid finmid di_mid tr_fin dommid qmid [of u] show ?thesis by (simp add: store_inv_def)
qed

lemma same_store_pendingEndorsements:
  "same_store a b \<Longrightarrow>
   same_store (a\<lparr>pendingEndorsements := p\<rparr>) (b\<lparr>pendingEndorsements := p\<rparr>)"
  by (simp add: same_store_def)

lemma AddQuery_inv:
  assumes "store_inv qs" and "tracks hist qs" and "AddQuery n qs q = Some (r, qs')"
  shows "store_inv qs' \<and> tracks hist qs' \<and>
    dom (queries qs') = insert (q_Uuid q) (dom (queries qs)) \<and>
    (queries qs (q_Uuid q) = None \<longrightarrow>
       r \<and> map_option State (queries qs' (q_Uuid q)) = Some qPending)"
proof (cases "queries qs (q_Uuid q)")
  case (Some a)
  with assms show ?thesis by (auto simp: AddQuery_def)
next
  case None
  define qi0 where "qi0 = queryInfo_zero\<lparr>qi_Query := Some q\<rparr>"
  have q0: "qi_Query qi0 = Some q" and e0: "Endorsements qi0 = []"
    by (simp_all add: qi0_def queryInfo_zero_def)
  from injectPending_result [OF q0, of "pendingEndorsements qs" "[]" qs] obtain es qs1 where
    inj: "injectPending (q_Uuid q) (pendingEndorsements qs) [] qi0 qs =
      Some (filter (\<lambda>e. e_Uuid e \<noteq> q_Uuid q) (pendingEndorsements qs),
            qi0\<lparr>Endorsements := es\<rparr>, qs1)"
    and m: "map ei_Endorsement es = foldl accept (map ei_Endorsement (Endorsements qi0))
        (filter (\<lambda>e. e_Uuid e = q_Uuid q) (pendingEndorsements qs))"
    and g: "deps_grown (q_Uuid q) (conds_of (qi0\<lparr>Endorsements := es\<rparr>) - conds_of qi0) qs qs1"
    by auto
  define qi1 where "qi1 = qi0\<lparr>Endorsements := es\<rparr>"
  define qi'' where
    "qi'' = qi1\<lparr>Dependents := pendingDependencies_at qs1 (q_Uuid q), qi_cache := cache_Set False\<rparr>"
  define qs2 where
    "qs2 = qs1\<lparr>pendingDependencies := (pendingDependencies qs1)(q_Uuid q := None)\<rparr>"
  define mid where "mid = set_query qs2 (q_Uuid q) qi''"
  from assms(3) None inj obtain qs3 where
    cm: "cascadeMark n qs2 qi'' = Some qs3"
    and qs': "qs' = qs3\<lparr>pendingEndorsements :=
        filter (\<lambda>e. e_Uuid e \<noteq> q_Uuid q) (pendingEndorsements qs)\<rparr>"
    and r: r
    by (auto simp: AddQuery_def qi0_def qi1_def qi''_def qs2_def Let_def split: option.splits)
  have g': "deps_grown (q_Uuid q) (conds_of qi1) qs qs1"
    using g by (simp add: qi1_def conds_of_def e0)
  have k1: "keyed qs1" using g' assms(1) keyed_deps_grown by (auto simp: store_inv_def)
  have k2: "keyed qs2" using k1 by (simp add: keyed_def qs2_def)
  have put: "store_put qs2 qi'' = mid"
    by (simp add: store_put_def qi''_def qi1_def q0 mid_def)
  from cascadeMark_frame [OF k2 cm] put have f: "same_store mid qs3" by simp
  let ?fin = "mid\<lparr>pendingEndorsements :=
      filter (\<lambda>e. e_Uuid e \<noteq> q_Uuid q) (pendingEndorsements qs)\<rparr>"
  have mid_facts: "store_inv mid \<and> tracks hist ?fin \<and>
      dom (queries mid) = insert (q_Uuid q) (dom (queries qs)) \<and>
      queries mid (q_Uuid q) = Some qi''"
    by (rule new_record_inv [OF assms(1,2) None g' _ _ _ qi''_def])
      (use m in \<open>simp_all add: qi1_def q0 e0 mid_def qs2_def\<close>)
  have ff: "same_store ?fin qs'"
    unfolding qs' using f by (rule same_store_pendingEndorsements)
  have inv_fin: "store_inv ?fin" using mid_facts by (simp add: store_inv_pendingEndorsements)
  have inv': "store_inv qs'" using ff inv_fin by (rule store_inv_same_store)
  have tr': "tracks hist qs'" using ff mid_facts by (blast intro: tracks_same_store)
  have dom': "dom (queries qs') = insert (q_Uuid q) (dom (queries qs))"
    using same_store_dom [OF ff] mid_facts by simp
  from same_store_lookup [OF ff, of "q_Uuid q" qi''] mid_facts obtain b where
    "queries qs' (q_Uuid q) = Some b" "same_record qi'' b" by auto
  then have "map_option State (queries qs' (q_Uuid q)) = Some qPending"
    by (simp add: same_record_def qi''_def qi1_def qi0_def queryInfo_zero_def)
  with inv' tr' dom' r show ?thesis by simp
qed

section \<open>Query store: runs\<close>

lemma rel_option_same_node_trans:
  "rel_option same_node x y \<Longrightarrow> rel_option same_node y z \<Longrightarrow> rel_option same_node x z"
  by (cases x; cases y; cases z) (simp_all add: same_node_def)

lemma same_graph_trans: "same_graph a b \<Longrightarrow> same_graph b c \<Longrightarrow> same_graph a c"
  unfolding same_graph_def by (auto intro: rel_option_same_node_trans)

lemma same_graph_committed_store:
  assumes "queries qs u = Some qi"
  shows "same_graph qs (committed_store qs u)"
proof -
  have at: "queries_at qs u = qi" using assms by (simp add: queries_at_def)
  show ?thesis unfolding committed_store_def at
    using same_graph_set_State [OF assms] same_graph_mark_dropped by (rule same_graph_trans)
qed

lemma store_inv_new: "store_inv (storeWith w)"
  by (simp add: store_inv_def keyed_def deps_indexed_def storeWith_def newQueryStore_def)

lemma tracks_new: "tracks [] (storeWith w)"
  by (simp add: tracks_def storeWith_def newQueryStore_def)

lemma arrivals_Cons: "arrivals (op # ops) = arrivals [op] @ arrivals ops"
  by (cases op) simp_all

lemma step_inv:
  assumes "store_inv qs" and "tracks hist qs" and "step n now qs op = Some (ob, qs')"
  shows "store_inv qs' \<and> tracks (hist @ arrivals [op]) qs'"
proof (cases op)
  case (OpAddQuery q)
  with assms(3) obtain r where "AddQuery n qs q = Some (r, qs')"
    by (auto simp: step_def)
  from AddQuery_inv [OF assms(1,2) this] OpAddQuery show ?thesis by simp
next
  case (OpAddEndorsement e)
  with assms(3) obtain r where "AddEndorsement n qs e = Some (r, qs')"
    by (auto simp: step_def)
  from AddEndorsement_inv [OF assms(1,2) this] OpAddEndorsement show ?thesis by simp
next
  case (OpIsApplicable u)
  with assms(3) obtain b where "isApplicable n qs u = Some (b, qs')"
    by (auto simp: step_def)
  then have "same_store qs qs'" by (rule isApplicable_frame)
  with assms(1,2) OpIsApplicable show ?thesis
    using store_inv_same_store tracks_same_store by auto
next
  case (OpCheckState u)
  with assms(3) obtain c cp where cs: "CheckState n now qs u = Some ((c, cp), qs')"
    by (auto simp: step_def)
  from assms(1) have k: "keyed qs" by (simp add: store_inv_def)
  note fr = CheckState_frame [OF k cs]
  show ?thesis
  proof (cases c)
    case False
    with fr have "same_store qs qs'" by simp
    with assms(1,2) OpCheckState show ?thesis
      using store_inv_same_store tracks_same_store by auto
  next
    case True
    with fr obtain qi where qi: "queries qs u = Some qi"
      and f: "same_store (committed_store qs u) qs'" by auto
    note g = same_graph_committed_store [OF qi]
    have "store_inv (committed_store qs u)" using g assms(1) by (rule store_inv_same_graph)
    moreover have "tracks hist (committed_store qs u)" using g assms(2) by (rule tracks_same_graph)
    ultimately show ?thesis using f OpCheckState
      using store_inv_same_store tracks_same_store by auto
  qed
next
  case (OpCheckpointChoice us)
  with assms(3) obtain r where "CheckpointChoice n qs us = Some (r, qs')"
    by (auto simp: step_def)
  then have "same_store qs qs'" by (rule CheckpointChoice_frame)
  with assms(1,2) OpCheckpointChoice show ?thesis
    using store_inv_same_store tracks_same_store by auto
next
  case (OpCheckpointDrop us)
  with assms(3) have cd: "CheckpointDrop n qs us = Some qs'"
    by (auto simp: step_def)
  from assms(1) have k: "keyed qs" by (simp add: store_inv_def)
  from CheckpointDrop_frame [OF k cd] have f: "same_store (mark_dropped (set us) qs) qs'" .
  have "store_inv (mark_dropped (set us) qs)" using assms(1) by (rule store_inv_mark_dropped)
  moreover have "tracks hist (mark_dropped (set us) qs)"
    using same_graph_mark_dropped assms(2) by (rule tracks_same_graph)
  ultimately show ?thesis using f OpCheckpointDrop
    using store_inv_same_store tracks_same_store by auto
next
  case (OpEndorse u)
  with assms(3) have "qs' = Endorse qs u" by (auto simp: step_def)
  then have "same_store qs qs'" by (simp add: Endorse_frame)
  with assms(1,2) OpEndorse show ?thesis
    using store_inv_same_store tracks_same_store by auto
qed

lemma run_inv:
  assumes "run n now qs ops = Some (obs, qs')" and "store_inv qs" and "tracks hist qs"
  shows "store_inv qs' \<and> tracks (hist @ arrivals ops) qs'"
  using assms
proof (induction ops arbitrary: qs hist obs)
  case Nil
  then show ?case by simp
next
  case (Cons op ops)
  from Cons.prems(1) obtain ob qs1 obs1 where
    s: "step n now qs op = Some (ob, qs1)" and r: "run n now qs1 ops = Some (obs1, qs')"
    by (auto split: option.splits)
  from step_inv [OF Cons.prems(2,3) s]
  have "store_inv qs1" "tracks (hist @ arrivals [op]) qs1" by simp_all
  from Cons.IH [OF r this] show ?case
    by (simp add: arrivals_Cons [of op ops])
qed

text \<open>Every store that a run reaches from a new store satisfies the invariant.\<close>

lemma reached_inv:
  assumes "final_store n now (storeWith w) ops = Some qs"
  shows "store_inv qs \<and> tracks (arrivals ops) qs"
proof -
  from assms obtain obs where "run n now (storeWith w) ops = Some (obs, qs)"
    by (auto simp: final_store_def)
  from run_inv [OF this store_inv_new tracks_new] show ?thesis by simp
qed

subsection \<open>The calls that add and drop return\<close>

lemma AddEndorsement_returns:
  assumes "store_inv qs" and "card (dom (queries qs)) + 2 \<le> n"
  shows "\<exists>r qs'. AddEndorsement n qs e = Some (r, qs')"
proof (cases "queries qs (e_Uuid e)")
  case None
  then show ?thesis by (auto simp: AddEndorsement_def)
next
  case (Some qi)
  from assms(1) have k: "keyed qs" and fin: "finite (dom (queries qs))"
    by (simp_all add: store_inv_def)
  with Some obtain q where q: "qi_Query qi = Some q" by (auto simp: keyed_def)
  from addEndorsementInternal_result [OF q, of qs e] obtain ins es qs1 where
    a: "addEndorsementInternal qs e qi = Some (ins, qi\<lparr>Endorsements := es\<rparr>, qs1)"
    and g: "deps_grown (q_Uuid q) (conds_of (qi\<lparr>Endorsements := es\<rparr>) - conds_of qi) qs qs1"
    by blast
  have k1: "keyed qs1" using g k by (rule keyed_deps_grown)
  have d1: "dom (queries qs1) = dom (queries qs)" using g by (rule deps_grown_dom)
  from cascadeMark_returns [OF k1, of n "qi\<lparr>Endorsements := es\<rparr>"] d1 fin assms(2)
  obtain qs' where "cascadeMark n qs1 (qi\<lparr>Endorsements := es\<rparr>) = Some qs'" by auto
  with Some a show ?thesis by (auto simp: AddEndorsement_def)
qed

lemma AddQuery_returns:
  assumes "store_inv qs" and "card (dom (queries qs)) + 2 \<le> n"
  shows "\<exists>r qs'. AddQuery n qs q = Some (r, qs')"
proof (cases "queries qs (q_Uuid q)")
  case (Some a)
  then show ?thesis by (auto simp: AddQuery_def)
next
  case None
  from assms(1) have k: "keyed qs" and fin: "finite (dom (queries qs))"
    by (simp_all add: store_inv_def)
  define qi0 where "qi0 = queryInfo_zero\<lparr>qi_Query := Some q\<rparr>"
  have q0: "qi_Query qi0 = Some q" by (simp add: qi0_def)
  from injectPending_result [OF q0, of "pendingEndorsements qs" "[]" qs] obtain es qs1 where
    inj: "injectPending (q_Uuid q) (pendingEndorsements qs) [] qi0 qs =
      Some (filter (\<lambda>e. e_Uuid e \<noteq> q_Uuid q) (pendingEndorsements qs),
            qi0\<lparr>Endorsements := es\<rparr>, qs1)"
    and g: "deps_grown (q_Uuid q) (conds_of (qi0\<lparr>Endorsements := es\<rparr>) - conds_of qi0) qs qs1"
    by auto
  define qs2 where
    "qs2 = qs1\<lparr>pendingDependencies := (pendingDependencies qs1)(q_Uuid q := None)\<rparr>"
  have k1: "keyed qs1" using g k by (rule keyed_deps_grown)
  have k2: "keyed qs2" using k1 by (simp add: keyed_def qs2_def)
  have d2: "dom (queries qs2) = dom (queries qs)"
    using deps_grown_dom [OF g] by (simp add: qs2_def)
  from cascadeMark_returns [OF k2, of n] d2 fin assms(2)
  have "\<exists>qs3. cascadeMark n qs2 qi = Some qs3" for qi by auto
  then obtain qs3 where "cascadeMark n qs2
      (qi0\<lparr>Endorsements := es, Dependents := pendingDependencies_at qs1 (q_Uuid q),
           qi_cache := cache_Set False\<rparr>) = Some qs3" by blast
  with None inj show ?thesis by (auto simp: AddQuery_def qi0_def qs2_def Let_def)
qed

lemma drop_query_returns:
  assumes "store_inv qs" and "card (dom (queries qs)) + 2 \<le> n"
  shows "\<exists>qs'. drop_query n qs u = Some qs'"
  unfolding drop_query_def
  using cascadeMark_returns [of qs n] assms by (simp add: store_inv_def)

lemma CheckpointDrop_returns:
  assumes "store_inv qs" and "card (dom (queries qs)) + 2 \<le> n"
  shows "\<exists>qs'. CheckpointDrop n qs us = Some qs'"
  using assms
proof (induction us arbitrary: qs)
  case Nil
  then show ?case by simp
next
  case (Cons u us)
  from drop_query_returns [OF Cons.prems] obtain qs1 where d: "drop_query n qs u = Some qs1"
    by blast
  from Cons.prems(1) have k: "keyed qs" by (simp add: store_inv_def)
  from drop_query_frame [OF k d] have f: "same_store (mark_dropped {u} qs) qs1" .
  have inv1: "store_inv qs1"
    using f store_inv_mark_dropped [OF Cons.prems(1)] by (rule store_inv_same_store)
  have "dom (queries qs1) = dom (queries qs)"
    using same_store_dom [OF f] same_graph_dom [OF same_graph_mark_dropped] by simp
  with Cons.prems(2) have "card (dom (queries qs1)) + 2 \<le> n" by simp
  from Cons.IH [OF inv1 this] d show ?case by simp
qed

lemma adds_return:
  assumes "list_all is_add ops" and "store_inv qs" and "tracks hist qs"
    and "card (dom (queries qs)) + length ops + 2 \<le> n"
  shows "\<exists>obs qs'. run n now qs ops = Some (obs, qs')"
  using assms
proof (induction ops arbitrary: qs hist)
  case Nil
  then show ?case by simp
next
  case (Cons op ops)
  from Cons.prems(2) have fin: "finite (dom (queries qs))" by (simp add: store_inv_def)
  have b: "card (dom (queries qs)) + 2 \<le> n" using Cons.prems(4) by simp
  have "\<exists>ob qs1. step n now qs op = Some (ob, qs1) \<and>
      card (dom (queries qs1)) \<le> card (dom (queries qs)) + 1"
  proof (cases op)
    case (OpAddQuery q)
    from AddQuery_returns [OF Cons.prems(2) b, of q] obtain r qs1 where
      a: "AddQuery n qs q = Some (r, qs1)" by blast
    from AddQuery_inv [OF Cons.prems(2,3) a]
    have "dom (queries qs1) = insert (q_Uuid q) (dom (queries qs))" by simp
    then have "card (dom (queries qs1)) \<le> card (dom (queries qs)) + 1"
      using fin by (simp add: card_insert_if)
    with a OpAddQuery show ?thesis by (simp add: step_def)
  next
    case (OpAddEndorsement e)
    from AddEndorsement_returns [OF Cons.prems(2) b, of e] obtain r qs1 where
      a: "AddEndorsement n qs e = Some (r, qs1)" by blast
    from AddEndorsement_inv [OF Cons.prems(2,3) a]
    have "dom (queries qs1) = dom (queries qs)" by simp
    with a OpAddEndorsement show ?thesis by (cases r) (simp add: step_def)
  qed (use Cons.prems(1) in simp_all)
  then obtain ob qs1 where s: "step n now qs op = Some (ob, qs1)"
    and c: "card (dom (queries qs1)) \<le> card (dom (queries qs)) + 1" by blast
  from step_inv [OF Cons.prems(2,3) s]
  have i1: "store_inv qs1" and t1: "tracks (hist @ arrivals [op]) qs1" by simp_all
  from c Cons.prems(4) have b1: "card (dom (queries qs1)) + length ops + 2 \<le> n" by simp
  from Cons.prems(1) have "list_all is_add ops" by simp
  from Cons.IH [OF this i1 t1 b1] s show ?case by auto
qed

section \<open>Query store: the claims\<close>

lemmas scenario_eval = query_def chain_def own_condition_def repeated_def store_eval
  numeral_eq_Suc retained_def conditioned_def conditioned_on_def

text \<open>
  C2. The claim: \<open>CheckState u\<close> returns \<open>commit = true\<close> and leaves \<open>u\<close> committed
  exactly when \<open>u\<close> is applicable, not yet committed, and has the threshold of
  endorsements whose conditions are all dropped. The code does not hold it for a
  query that is its own dependent. In the run \<open>own_condition\<close> the endorsement of
  \<open>u\<close> by \<open>a\<close> lists \<open>u\<close> itself; it is parked, so \<open>AddQuery\<close> makes \<open>u\<close> a
  dependent of \<open>u\<close>. The endorsement is not valid (its other condition \<open>r\<close> is
  committed), and the endorsement by \<open>b\<close> is enough for the threshold: \<open>u\<close> is
  applicable and pending, \<open>CheckState\<close> returns \<open>commit = true\<close>, and \<open>commit\<close>
  sets \<open>u\<close> committed and then drops it with its dependents. \<open>CheckState\<close> has
  returned \<open>commit = true\<close> and \<open>u\<close> is dropped.
\<close>

theorem CheckState_commits_then_drops:
  "observations 5 0 (storeWith 1) (own_condition @ [OpCheckState ''u'']) =
     Some [Inserted True, Added False True, Checked True [], Added True False,
           Added True False, Inserted True, Applicable True, Checked True []]
   \<and> state_of (final_store 5 0 (storeWith 1) own_condition) ''u'' = Some qPending
   \<and> state_of (final_store 5 0 (storeWith 1) (own_condition @ [OpCheckState ''u''])) ''u'' =
       Some qDropped"
  by (simp add: scenario_eval)

text \<open>
  When the endorsement that lists its own query is the one to be evaluated,
  \<open>isApplicable\<close> calls itself for the same query in the same state: neither it nor
  \<open>CheckState\<close> returns, whatever the depth bound.
\<close>

lemma isApplicable_own_condition_never_returns:
  assumes "queries qs u = Some qi" and "State qi = qPending" and "\<not> fresh (qi_cache qi)"
    and "Endorsements qi = [e]" and "\<not> fresh (ei_cache e)"
    and "e_Conditions (ei_Endorsement e) = [u]" and "threshold qs \<le> 1"
  shows "isApplicable n qs u = None"
  using assms by (induction n) auto

lemma CheckState_own_condition_never_returns:
  "observations n now (storeWith 1)
     [OpAddQuery (query u), endorse u a [u], OpCheckState u] = None"
proof (cases n)
  case 0
  then show ?thesis by (simp add: scenario_eval)
next
  case (Suc m)
  have "\<exists>qs. final_store n now (storeWith 1) [OpAddQuery (query u), endorse u a [u]] = Some qs
      \<and> isApplicable n qs u = None"
    unfolding Suc
    by (simp add: scenario_eval del: isApplicable.simps)
      (rule isApplicable_own_condition_never_returns
        [where qi = "\<lparr>qi_Query = Some \<lparr>q_Uuid = u, q_Deadline = None\<rparr>,
            Endorsements = [\<lparr>ei_Endorsement = \<lparr>e_Uuid = u, e_Emitter = a, e_Conditions = [u]\<rparr>,
              ei_cache = \<lparr>result = False, fresh = False\<rparr>\<rparr>],
            Dependents = [], State = qPending, Endorsed = False, Applied = False,
            qi_cache = \<lparr>result = False, fresh = False\<rparr>\<rparr>"
          and e = "\<lparr>ei_Endorsement = \<lparr>e_Uuid = u, e_Emitter = a, e_Conditions = [u]\<rparr>,
              ei_cache = \<lparr>result = False, fresh = False\<rparr>\<rparr>"],
        simp_all)
  then obtain qs obs where "run n now (storeWith 1) [OpAddQuery (query u), endorse u a [u]] = Some (obs, qs)"
    and "isApplicable n qs u = None"
    by (auto simp: final_store_def)
  then show ?thesis
    by (auto simp: observations_def step_def CheckState_def split: option.splits)
qed

text \<open>
  C3 (as stated, refuted). The claim: when \<open>q\<close> is committed, the queries with an
  endorsement conditioned on \<open>q\<close> are dropped, and so are, transitively, the queries
  conditioned on a dropped one. In the run \<open>chain\<close>, \<open>CheckState q\<close> commits \<open>q\<close>
  and drops \<open>r\<close>; \<open>s\<close>, whose endorsement is conditioned on the dropped \<open>r\<close>,
  stays pending. (Its endorsement has become definitely valid: a later \<open>CheckState s\<close>
  commits it.)
\<close>

theorem drop_is_not_transitive:
  "observations 5 0 (storeWith 1) (chain @ [OpCheckState ''q'']) =
     Some [Inserted True, Inserted True, Inserted True, Added False True, Added False True,
           Added False True, Checked True []]
   \<and> map_option (\<lambda>qs. retained qs ''s'') (final_store 5 0 (storeWith 1) (chain @ [OpCheckState ''q''])) =
       Some (Some [\<lparr>e_Uuid = ''s'', e_Emitter = ''1'', e_Conditions = [''r'']\<rparr>])
   \<and> map (state_of (final_store 5 0 (storeWith 1) (chain @ [OpCheckState ''q''])))
       [''q'', ''r'', ''s''] = [Some qCommitted, Some qDropped, Some qPending]"
  by (simp add: scenario_eval)


text \<open>
  C3 (amended). On a store that the calls of the store have made from a new store, when
  \<open>CheckState u\<close> commits \<open>u\<close>, every other query that has a stored endorsement
  whose conditions include \<open>u\<close> is in the dropped state when the call returns. The
  drop is not transitive: the state of a query that is neither \<open>u\<close> nor among the
  dependents of \<open>u\<close> is unchanged. And \<open>u\<close> is committed, unless it is among its
  own dependents.
\<close>

theorem commit_drops_dependents:
  assumes "final_store m now0 (storeWith w) ops = Some qs"
    and "CheckState n now qs u = Some ((True, cp), qs')"
  shows "(\<forall>r. r \<noteq> u \<and> conditioned qs' r u \<longrightarrow> state_of (Some qs') r = Some qDropped) \<and>
    (\<forall>r. r \<noteq> u \<and> r \<notin> set (Dependents (queries_at qs u)) \<longrightarrow>
       state_of (Some qs') r = state_of (Some qs) r) \<and>
    (u \<notin> set (Dependents (queries_at qs u)) \<longrightarrow> state_of (Some qs') u = Some qCommitted)"
proof -
  from reached_inv [OF assms(1)] have inv: "store_inv qs" by simp
  then have k: "keyed qs" and di: "deps_indexed qs" by (simp_all add: store_inv_def)
  from CheckState_frame [OF k assms(2)] obtain qu where
    qu: "queries qs u = Some qu" and f: "same_store (committed_store qs u) qs'" by auto
  have at: "queries_at qs u = qu" using qu by (simp add: queries_at_def)
  let ?D = "set (Dependents qu)"
  have cq: "queries (committed_store qs u) k =
      map_option (\<lambda>qi. if k \<in> ?D then qi\<lparr>State := qDropped\<rparr> else qi)
        (if k = u then Some (qu\<lparr>State := qCommitted\<rparr>) else queries qs k)" for k
    by (simp add: committed_store_def at queries_mark_dropped set_query_def)
  have rel: "rel_option same_record (queries (committed_store qs u) k) (queries qs' k)" for k
    using same_storeD(1) [OF f] .
  show ?thesis
  proof (intro conjI allI impI)
    fix r
    assume h: "r \<noteq> u \<and> conditioned qs' r u"
    then obtain b where b: "queries qs' r = Some b" "conditioned_on b u"
      by (auto simp: conditioned_def split: option.splits)
    with rel [of r] h obtain a where a: "queries qs r = Some a"
      and sr: "same_record (if r \<in> ?D then a\<lparr>State := qDropped\<rparr> else a) b"
      by (cases "queries qs r") (auto simp: cq)
    then have "map ei_Endorsement (Endorsements b) = map ei_Endorsement (Endorsements a)"
      by (simp add: same_record_def split: if_splits)
    then have "set (map ei_Endorsement (Endorsements b)) = set (map ei_Endorsement (Endorsements a))"
      by simp
    then have "ei_Endorsement ` set (Endorsements b) = ei_Endorsement ` set (Endorsements a)"
      by simp
    with b(2) have "conditioned_on a u"
      unfolding conditioned_on_def by (metis (no_types, lifting) image_iff)
    with di a h qu have "r \<in> ?D" unfolding deps_indexed_def by force
    with sr b(1) show "state_of (Some qs') r = Some qDropped"
      by (simp add: state_of_def same_record_def)
  next
    fix r
    assume h: "r \<noteq> u \<and> r \<notin> set (Dependents (queries_at qs u))"
    then show "state_of (Some qs') r = state_of (Some qs) r"
      using rel [of r]
      by (cases "queries qs r"; cases "queries qs' r")
        (auto simp: cq at state_of_def same_record_def)
  next
    assume "u \<notin> set (Dependents (queries_at qs u))"
    then show "state_of (Some qs') u = Some qCommitted"
      using rel [of u] by (cases "queries qs' u") (auto simp: cq at state_of_def same_record_def)
  qed
qed

theorem commit_drops_dependents_witness:
  "final_store 5 0 (storeWith 1) chain = Some chain_store
   \<and> CheckState 5 0 chain_store ''q'' = Some ((True, []), chain_committed)
   \<and> conditioned chain_committed ''r'' ''q''
   \<and> state_of (Some chain_committed) ''r'' = Some qDropped
   \<and> ''s'' \<notin> set (Dependents (queries_at chain_store ''q''))
   \<and> state_of (Some chain_committed) ''s'' = state_of (Some chain_store) ''s''
   \<and> ''q'' \<notin> set (Dependents (queries_at chain_store ''q''))
   \<and> state_of (Some chain_committed) ''q'' = Some qCommitted"
proof -
  have a: "final_store 5 0 (storeWith 1) chain = Some chain_store"
    by (simp add: chain_store_def scenario_eval)
  have b: "CheckState 5 0 chain_store ''q'' = Some ((True, []), chain_committed)"
    by (simp add: chain_committed_def chain_store_def scenario_eval)
  have c: "conditioned chain_committed ''r'' ''q''"
    and d: "''s'' \<notin> set (Dependents (queries_at chain_store ''q''))"
    and e: "''q'' \<notin> set (Dependents (queries_at chain_store ''q''))"
    by (simp_all add: chain_committed_def chain_store_def scenario_eval)
  from commit_drops_dependents [OF a b] a b c d e show ?thesis by simp
qed


lemma distinct_first_per_emitter: "distinct (map e_Emitter (first_per_emitter es))"
  using distinct_foldl_accept [of "[]" es] by (simp add: foldl_accept_first_per_emitter)

text \<open>
  C5. Every sequence of \<open>AddQuery\<close> and \<open>AddEndorsement\<close> calls on a new store returns
  (with a depth bound of the length of the sequence plus 2). In the store that a run
  reaches, the endorsements held for a query are the first endorsement of each
  emitter among the endorsements given for that query, in their order of arrival,
  whether they came after the query or were parked before it; so no two of them have
  the same emitter. The parked endorsements are those of the queries that the store
  does not hold. This holds for the runs of all the calls of the store, when they
  return.
\<close>

theorem first_endorsement_per_emitter:
  "(list_all is_add ops \<and> length ops + 2 \<le> n \<longrightarrow>
      final_store n now (storeWith w) ops \<noteq> None) \<and>
   (\<forall>qs. final_store n now (storeWith w) ops = Some qs \<longrightarrow>
      (\<forall>u es. retained qs u = Some es \<longrightarrow>
         es = first_per_emitter (filter (\<lambda>e. e_Uuid e = u) (arrivals ops)) \<and>
         distinct (map e_Emitter es)) \<and>
      pendingEndorsements qs = filter (\<lambda>e. retained qs (e_Uuid e) = None) (arrivals ops))"
proof (intro conjI allI impI)
  assume h: "list_all is_add ops \<and> length ops + 2 \<le> n"
  have "card (dom (queries (storeWith w))) = 0"
    by (simp add: storeWith_def newQueryStore_def)
  with h have "card (dom (queries (storeWith w))) + length ops + 2 \<le> n" by simp
  from adds_return [OF _ store_inv_new tracks_new this] h
  show "final_store n now (storeWith w) ops \<noteq> None"
    by (auto simp: final_store_def)
next
  fix qs u es
  assume f: "final_store n now (storeWith w) ops = Some qs" and r: "retained qs u = Some es"
  from reached_inv [OF f] have tr: "tracks (arrivals ops) qs" by simp
  from r obtain qi where "queries qs u = Some qi" "es = map ei_Endorsement (Endorsements qi)"
    by (auto simp: retained_def)
  with tr show "es = first_per_emitter (filter (\<lambda>e. e_Uuid e = u) (arrivals ops))"
    by (simp add: tracks_def foldl_accept_first_per_emitter)
  then show "distinct (map e_Emitter es)" by (simp add: distinct_first_per_emitter)
next
  fix qs
  assume f: "final_store n now (storeWith w) ops = Some qs"
  from reached_inv [OF f] have tr: "tracks (arrivals ops) qs" by simp
  have "retained qs k = None \<longleftrightarrow> queries qs k = None" for k
    by (simp add: retained_def)
  with tr show "pendingEndorsements qs =
      filter (\<lambda>e. retained qs (e_Uuid e) = None) (arrivals ops)"
    by (simp add: tracks_def)
qed

theorem first_endorsement_per_emitter_witness:
  "list_all is_add repeated \<and> length repeated + 2 \<le> 8
   \<and> final_store 8 0 (storeWith 2) repeated \<noteq> None
   \<and> retained (the (final_store 8 0 (storeWith 2) repeated)) ''q'' =
       Some [\<lparr>e_Uuid = ''q'', e_Emitter = ''a'', e_Conditions = []\<rparr>,
             \<lparr>e_Uuid = ''q'', e_Emitter = ''b'', e_Conditions = []\<rparr>]
   \<and> first_per_emitter (filter (\<lambda>e. e_Uuid e = ''q'') (arrivals repeated)) =
       [\<lparr>e_Uuid = ''q'', e_Emitter = ''a'', e_Conditions = []\<rparr>,
        \<lparr>e_Uuid = ''q'', e_Emitter = ''b'', e_Conditions = []\<rparr>]
   \<and> pendingEndorsements (the (final_store 8 0 (storeWith 2) repeated)) =
       [\<lparr>e_Uuid = ''r'', e_Emitter = ''a'', e_Conditions = []\<rparr>]"
proof -
  have adds: "list_all is_add repeated \<and> length repeated + 2 \<le> 8"
    by (simp add: repeated_def endorse_def)
  have ret: "retained (the (final_store 8 0 (storeWith 2) repeated)) ''q'' =
       Some [\<lparr>e_Uuid = ''q'', e_Emitter = ''a'', e_Conditions = []\<rparr>,
             \<lparr>e_Uuid = ''q'', e_Emitter = ''b'', e_Conditions = []\<rparr>]"
    and pen: "pendingEndorsements (the (final_store 8 0 (storeWith 2) repeated)) =
       [\<lparr>e_Uuid = ''r'', e_Emitter = ''a'', e_Conditions = []\<rparr>]"
    by (simp_all add: scenario_eval)
  note inst = first_endorsement_per_emitter [of repeated 8 0 2]
  from inst adds have some: "final_store 8 0 (storeWith 2) repeated \<noteq> None" by blast
  then have "final_store 8 0 (storeWith 2) repeated =
      Some (the (final_store 8 0 (storeWith 2) repeated))" by simp
  with inst ret have "[\<lparr>e_Uuid = ''q'', e_Emitter = ''a'', e_Conditions = []\<rparr>,
        \<lparr>e_Uuid = ''q'', e_Emitter = ''b'', e_Conditions = []\<rparr>] =
      first_per_emitter (filter (\<lambda>e. e_Uuid e = ''q'') (arrivals repeated))"
    by blast
  with adds some ret pen show ?thesis by simp
qed

text \<open>
  C10. On a store that the calls of the store have made from a new store, for a uuid
  \<open>u\<close> that the store does not hold, \<open>CheckpointDrop [u]\<close> returns the store as it
  was; \<open>AddQuery\<close> of a query with that uuid, after it, inserts the query, in the
  pending state.
\<close>

theorem CheckpointDrop_unknown_unchanged:
  assumes "final_store m now0 (storeWith w) ops = Some qs"
    and "queries qs u = None" and "q_Uuid q = u"
    and "card (dom (queries qs)) + 2 \<le> n"
  shows "CheckpointDrop n qs [u] = Some qs \<and>
    observations n now qs [OpCheckpointDrop [u], OpAddQuery q] = Some [Done, Inserted True] \<and>
    state_of (final_store n now qs [OpCheckpointDrop [u], OpAddQuery q]) u = Some qPending"
proof -
  from reached_inv [OF assms(1)] have inv: "store_inv qs" and tr: "tracks (arrivals ops) qs"
    by simp_all
  from assms(4) obtain n' where n: "n = Suc n'" by (cases n) simp_all
  have "qi_Query (queries_at qs u) = None"
    using assms(2) by (simp add: queries_at_def queryInfo_zero_def)
  then have drop: "CheckpointDrop n qs [u] = Some qs"
    by (simp add: n drop_query_def)
  from AddQuery_returns [OF inv assms(4), of q] obtain r qs' where
    a: "AddQuery n qs q = Some (r, qs')" by blast
  from AddQuery_inv [OF inv tr a] assms(2,3)
  have "r" and "map_option State (queries qs' u) = Some qPending" by simp_all
  with drop a assms(3) show ?thesis
    by (simp add: observations_def final_store_def step_def state_of_def)
qed

theorem CheckpointDrop_unknown_unchanged_witness:
  "final_store 3 0 (storeWith 2) [OpAddQuery (query ''r''), endorse ''q'' ''1'' []] =
     Some (the (final_store 3 0 (storeWith 2) [OpAddQuery (query ''r''), endorse ''q'' ''1'' []]))
   \<and> queries (the (final_store 3 0 (storeWith 2)
        [OpAddQuery (query ''r''), endorse ''q'' ''1'' []])) ''q'' = None
   \<and> q_Uuid (query ''q'') = ''q''
   \<and> card (dom (queries (the (final_store 3 0 (storeWith 2)
        [OpAddQuery (query ''r''), endorse ''q'' ''1'' []])))) + 2 \<le> 3
   \<and> observations 3 0 (the (final_store 3 0 (storeWith 2)
        [OpAddQuery (query ''r''), endorse ''q'' ''1'' []]))
        [OpCheckpointDrop [''q''], OpAddQuery (query ''q'')] = Some [Done, Inserted True]
   \<and> state_of (final_store 3 0 (the (final_store 3 0 (storeWith 2)
        [OpAddQuery (query ''r''), endorse ''q'' ''1'' []]))
        [OpCheckpointDrop [''q''], OpAddQuery (query ''q'')]) ''q'' = Some qPending"
  using CheckpointDrop_unknown_unchanged [of 3 0 2
      "[OpAddQuery (query ''r''), endorse ''q'' ''1'' []]"
      "the (final_store 3 0 (storeWith 2) [OpAddQuery (query ''r''), endorse ''q'' ''1'' []])"
      "''q''" "query ''q''" 3 0]
  by (simp add: scenario_eval)

section \<open>Snapshots: dump and load\<close>

lemma length_dumpHeader: "length dumpHeader = 16"
  by (simp add: dumpHeader_def)

lemma decode_encode_queryInfo: "decode_queryInfo (encode_queryInfo qi) = without_caches qi"
  by (simp add: decode_queryInfo_def encode_queryInfo_def without_caches_def comp_def)

text \<open>
  \<open>Load\<close> of what \<open>Dump\<close> has written returns no error. It sets the records of the
  snapshot, without their caches, and the pending dependencies of the snapshot in the
  maps of its receiver, and gives it the parked endorsements of the snapshot.
\<close>

lemma Load_of_Dump:
  "Load t (Dump s) =
     (None, t\<lparr>queries := queries t ++ (map_option without_caches \<circ> queries s),
              pendingDependencies := pendingDependencies t ++ pendingDependencies s,
              pendingEndorsements := pendingEndorsements s\<rparr>)"
  by (simp add: Load_def Dump_def ReadFull_def length_dumpHeader comp_def
      option.map_comp decode_encode_queryInfo)

text \<open>A record of the receiver whose uuid the snapshot does not hold stays in the store.\<close>

lemma Load_keeps_other_records:
  assumes "queries t k = Some qi" and "queries s k = None"
  shows "queries (snd (Load t (Dump s))) k = Some qi"
  using assms by (simp add: Load_of_Dump map_add_def)

text \<open>
  C8 (as stated, refuted). The claim: for every reachable store \<open>s\<close>, \<open>Dump\<close> and then
  \<open>Load\<close> give a state equal to \<open>s\<close>. In the store \<open>cached_store\<close>, reached from a
  new store by \<open>AddQuery\<close>, \<open>AddEndorsement\<close> and \<open>isApplicable\<close>, the record of \<open>q\<close>
  holds a fresh cached result. \<open>Load\<close> into a new store of the same threshold returns
  no error and leaves a record of \<open>q\<close> whose cache is not fresh: the store loaded is
  not \<open>cached_store\<close>.
\<close>

theorem Load_Dump_forgets_caches:
  "observations 3 0 (storeWith 1) cached = Some [Inserted True, Added False True, Applicable True] \<and>
   map_option qi_cache (queries cached_store ''q'') = Some \<lparr>result = True, fresh = True\<rparr> \<and>
   fst (Load (storeWith 1) (Dump cached_store)) = None \<and>
   map_option qi_cache (queries (snd (Load (storeWith 1) (Dump cached_store))) ''q'') =
     Some \<lparr>result = False, fresh = False\<rparr> \<and>
   snd (Load (storeWith 1) (Dump cached_store)) \<noteq> cached_store"
proof -
  have obs: "observations 3 0 (storeWith 1) cached =
      Some [Inserted True, Added False True, Applicable True]"
    by (simp add: cached_def scenario_eval)
  have cache: "map_option qi_cache (queries cached_store ''q'') =
      Some \<lparr>result = True, fresh = True\<rparr>"
    by (simp add: cached_store_def cached_def scenario_eval)
  have loaded: "map_option qi_cache (queries (snd (Load (storeWith 1) (Dump cached_store))) ''q'') =
      Some \<lparr>result = False, fresh = False\<rparr>"
    by (simp add: Load_of_Dump cached_store_def cached_def scenario_eval without_caches_def)
  have "snd (Load (storeWith 1) (Dump cached_store)) \<noteq> cached_store"
    using cache loaded by auto
  with obs cache loaded show ?thesis
    by (simp add: Load_of_Dump)
qed

text \<open>
  C8 (amended). For every store \<open>s\<close>, \<open>Load\<close> into a new store of threshold \<open>w\<close> of
  what \<open>Dump\<close> has written of \<open>s\<close> returns no error and gives the store \<open>s\<close> with
  every cached result at its zero value and with the threshold \<open>w\<close>: the queries with
  their states, flags, endorsements and dependents, the pending dependencies and the
  parked endorsements are those of \<open>s\<close>. \<open>Load\<close> into any store \<open>t\<close> returns no error
  and keeps the threshold of \<open>t\<close>; it does not replace the maps of \<open>t\<close>, it adds the
  records and the pending dependencies of the snapshot to them, key by key.
\<close>

theorem Load_Dump_restores:
  "Load (storeWith w) (Dump s) = (None, restored w s) \<and>
   fst (Load t (Dump s)) = None \<and>
   queries (snd (Load t (Dump s))) = queries t ++ queries (restored w s) \<and>
   pendingDependencies (snd (Load t (Dump s))) = pendingDependencies t ++ pendingDependencies s \<and>
   threshold (snd (Load t (Dump s))) = threshold t"
  by (simp add: Load_of_Dump restored_def storeWith_def newQueryStore_def)

end
